theory Spec2Isabelle
  imports Main
begin

section \<open>JavaScript strings\<close>

text \<open>
  Strings are lists of characters, and the functions below are the JavaScript string
  methods the sources call, on ASCII text: a character outside ASCII is left alone by
  the case mappings and is no white space. Methods, header names and serialised URLs are
  ASCII; the labels of navigation candidates reach the program with every run of white
  space replaced by one space.
\<close>

definition toUpperCase_char :: "char \<Rightarrow> char" where
  "toUpperCase_char c =
     (let n = (of_char c :: nat) in if 97 \<le> n \<and> n \<le> 122 then char_of (n - 32) else c)"

definition toLowerCase_char :: "char \<Rightarrow> char" where
  "toLowerCase_char c =
     (let n = (of_char c :: nat) in if 65 \<le> n \<and> n \<le> 90 then char_of (n + 32) else c)"

definition toUpperCase :: "string \<Rightarrow> string" where
  "toUpperCase s = map toUpperCase_char s"

definition toLowerCase :: "string \<Rightarrow> string" where
  "toLowerCase s = map toLowerCase_char s"

definition startsWith :: "string \<Rightarrow> string \<Rightarrow> bool" where
  "startsWith s p = (take (length p) s = p)"

definition endsWith :: "string \<Rightarrow> string \<Rightarrow> bool" where
  "endsWith s p = (length p \<le> length s \<and> drop (length s - length p) s = p)"

text \<open>\<open>anywhere P s\<close>: an unanchored regular expression search, \<open>P\<close> deciding
  whether the expression matches at the start of a suffix.\<close>

fun anywhere :: "(string \<Rightarrow> bool) \<Rightarrow> string \<Rightarrow> bool" where
  "anywhere P [] = P []"
| "anywhere P (c # cs) = (P (c # cs) \<or> anywhere P cs)"

definition includes_str :: "string \<Rightarrow> string \<Rightarrow> bool" where
  "includes_str s p = anywhere (\<lambda>t. startsWith t p) s"

section \<open>Risk classifier (src/agent/Risk.ts)\<close>

datatype RiskLevel = Low | Medium | High

text \<open>\<open>/checkout|payment|order|purchase|billing|subscription/\<close>\<close>

definition financial_keywords :: "string list" where
  "financial_keywords =
     [''checkout'', ''payment'', ''order'', ''purchase'', ''billing'', ''subscription'']"

definition matches_financial :: "string \<Rightarrow> bool" where
  "matches_financial s = (\<exists>k \<in> set financial_keywords. includes_str s k)"

text \<open>\<open>/\/users\/[^/]+\/delete|\/account\/close|\/account\/delete/\<close>. The class
  \<open>[^/]+\<close> cannot cross a slash and must be followed by one, so it is the longest
  non-empty run of non-slash characters.\<close>

definition users_delete_at :: "string \<Rightarrow> bool" where
  "users_delete_at t =
     (startsWith t ''/users/'' \<and>
      (let r = drop 7 t in
       takeWhile (\<lambda>c. c \<noteq> CHR ''/'') r \<noteq> [] \<and>
       startsWith (dropWhile (\<lambda>c. c \<noteq> CHR ''/'') r) ''/delete''))"

definition matches_account_deletion :: "string \<Rightarrow> bool" where
  "matches_account_deletion s =
     (anywhere users_delete_at s \<or> includes_str s ''/account/close'' \<or>
      includes_str s ''/account/delete'')"

text \<open>\<open>/\/auth\/|\/login|\/logout|\/register/\<close>\<close>

definition matches_auth :: "string \<Rightarrow> bool" where
  "matches_auth s =
     (includes_str s ''/auth/'' \<or> includes_str s ''/login'' \<or> includes_str s ''/logout'' \<or>
      includes_str s ''/register'')"

definition assessRisk :: "string \<Rightarrow> string \<Rightarrow> RiskLevel" where
  "assessRisk method url =
     (let upperMethod = toUpperCase method; lowerUrl = toLowerCase url in
      if upperMethod = ''DELETE'' then High
      else if matches_financial lowerUrl then High
      else if matches_account_deletion lowerUrl then High
      else if upperMethod = ''PUT'' \<or> upperMethod = ''PATCH'' then Medium
      else if matches_auth lowerUrl then Medium
      else Low)"


text \<open>The rule table of the specification: predicates on (method, URL) in priority
  order, the first one that holds giving the tier, \<open>Low\<close> when none does.\<close>

definition spec_rules :: "((string \<Rightarrow> string \<Rightarrow> bool) \<times> RiskLevel) list" where
  "spec_rules =
     [(\<lambda>m u. toUpperCase m = ''DELETE'', High),
      (\<lambda>m u. matches_financial (toLowerCase u), High),
      (\<lambda>m u. matches_account_deletion (toLowerCase u), High),
      (\<lambda>m u. toUpperCase m = ''PUT'' \<or> toUpperCase m = ''PATCH'', Medium),
      (\<lambda>m u. matches_auth (toLowerCase u), Medium)]"

fun first_match :: "((string \<Rightarrow> string \<Rightarrow> bool) \<times> RiskLevel) list \<Rightarrow> string \<Rightarrow> string \<Rightarrow> RiskLevel" where
  "first_match [] m u = Low"
| "first_match ((p, r) # rs) m u = (if p m u then r else first_match rs m u)"

section \<open>Agent core (src/agent/Agent.ts, src/agent/Events.ts)\<close>

datatype ExecutionMode = EXECUTE | OBSERVE_ONLY | DOCUMENT_ONLY

datatype ApprovalDecision = Yes | No | Doc

text \<open>The events \<open>Agent.ts\<close> itself emits, and \<open>info\<close>.
  \<open>ApprovalRequired action method endpoint risk\<close>;
  \<open>Network method url status timestamp\<close>.\<close>

datatype AgentEvent =
    Info string
  | ApprovalRequired string string string RiskLevel
  | Network string string nat nat
  | ModeChange ExecutionMode

text \<open>
  A listener is a callback, compared by identity (\<open>l !== cb\<close>): an identifier here.
  What a callback does to the agent when it is invoked is given by a table
  \<open>H :: handlers\<close>: the calls to \<open>onEvent\<close> and \<open>offEvent\<close> it makes, in order.
  A listener declared \<open>async\<close> returns to \<open>emit\<close> at its first \<open>await\<close>: here it is
  the part before that. The operations of the agent are studied with such listeners;
  listeners that throw or that resolve a decision before they return are outside the
  model. Of the program's two listeners \<open>handleEvent\<close> touches nothing of the agent,
  and \<open>handleUserPrompt\<close> returns at once on every event but \<open>user_prompt\<close>, on which it
  emits \<open>info\<close> events.
\<close>

type_synonym listener = nat

datatype listener_call = OnEvent listener | OffEvent listener

type_synonym handlers = "listener \<Rightarrow> AgentEvent \<Rightarrow> listener_call list"

text \<open>
  \<open>this.listeners\<close> is a reference to an array object: \<open>push\<close> mutates the object,
  \<open>filter\<close> allocates a new one. \<open>arrays\<close> is the store of array objects,
  \<open>next_array\<close> the first unallocated address. \<open>this.resolver\<close> holds the resolve
  function of a promise; promises are numbered, \<open>settled p\<close> is the decision promise
  \<open>p\<close> was resolved with, \<open>next_promise\<close> the first unallocated one.
  \<open>emitted\<close> and \<open>invoked\<close> record the calls of \<open>emit\<close> and of listeners.
\<close>

record Agent =
  arrays :: "nat \<Rightarrow> listener list"
  next_array :: nat
  listeners :: nat
  resolver :: "nat option"
  settled :: "nat \<Rightarrow> ApprovalDecision option"
  next_promise :: nat
  mode :: ExecutionMode
  emitted :: "AgentEvent list"
  invoked :: "(listener \<times> AgentEvent) list"

definition new_Agent :: Agent where
  "new_Agent = \<lparr> arrays = (\<lambda>_. []), next_array = 1, listeners = 0, resolver = None,
     settled = (\<lambda>_. None), next_promise = 0, mode = OBSERVE_ONLY, emitted = [],
     invoked = [] \<rparr>"

definition onEvent :: "listener \<Rightarrow> Agent \<Rightarrow> Agent" where
  "onEvent cb s = s\<lparr>arrays := (arrays s)(listeners s := arrays s (listeners s) @ [cb])\<rparr>"

definition offEvent :: "listener \<Rightarrow> Agent \<Rightarrow> Agent" where
  "offEvent cb s =
     (let a = next_array s in
      s\<lparr>arrays := (arrays s)(a := filter (\<lambda>l. l \<noteq> cb) (arrays s (listeners s))),
        next_array := Suc a, listeners := a\<rparr>)"

fun run_call :: "Agent \<Rightarrow> listener_call \<Rightarrow> Agent" where
  "run_call s (OnEvent l) = onEvent l s"
| "run_call s (OffEvent l) = offEvent l s"

text \<open>
  \<open>emit\<close> itself is defined for listeners of any effect on the agent,
  \<open>L :: effects\<close>; \<open>script H\<close> is the effect of the listeners of table \<open>H\<close>.
\<close>

type_synonym effects = "listener \<Rightarrow> AgentEvent \<Rightarrow> Agent \<Rightarrow> Agent"

definition script :: "handlers \<Rightarrow> effects" where
  "script H l ev s = foldl run_call s (H l ev)"

definition invoke :: "effects \<Rightarrow> listener \<Rightarrow> AgentEvent \<Rightarrow> Agent \<Rightarrow> Agent" where
  "invoke L l ev s = L l ev (s\<lparr>invoked := invoked s @ [(l, ev)]\<rparr>)"

text \<open>\<open>Array.prototype.forEach\<close>: the length is read once, before the first call;
  index \<open>k\<close> is visited if the array object still has it, with the element it holds
  then.\<close>

function forEach :: "effects \<Rightarrow> AgentEvent \<Rightarrow> nat \<Rightarrow> nat \<Rightarrow> nat \<Rightarrow> Agent \<Rightarrow> Agent" where
  "forEach L ev a k len s =
     (if k < len
      then forEach L ev a (Suc k) len
             (if k < length (arrays s a) then invoke L (arrays s a ! k) ev s else s)
      else s)"
  by pat_completeness auto
termination
  by (relation "measure (\<lambda>(L, ev, a, k, len, s). len - k)") auto

declare forEach.simps [simp del]

definition emit :: "effects \<Rightarrow> AgentEvent \<Rightarrow> Agent \<Rightarrow> Agent" where
  "emit L ev s =
     (let a = listeners s; len = length (arrays s a) in
      forEach L ev a 0 len (s\<lparr>emitted := emitted s @ [ev]\<rparr>))"

text \<open>The payload of \<open>requestApproval\<close>: action, api.method, api.endpoint, risk.\<close>

type_synonym payload = "string \<times> string \<times> string \<times> RiskLevel"

definition requestApproval :: "handlers \<Rightarrow> payload \<Rightarrow> Agent \<Rightarrow> Agent \<times> nat" where
  "requestApproval H pl s =
     (case pl of (action, m, endpoint, risk) \<Rightarrow>
        let s1 = emit (script H) (ApprovalRequired action m endpoint risk) s;
            p = next_promise s1
        in (s1\<lparr>resolver := Some p, next_promise := Suc p\<rparr>, p))"

text \<open>Resolving a promise that is already resolved changes nothing.\<close>

definition resolve_promise :: "nat \<Rightarrow> ApprovalDecision \<Rightarrow> Agent \<Rightarrow> Agent" where
  "resolve_promise p d s =
     (if settled s p = None then s\<lparr>settled := (settled s)(p \<mapsto> d)\<rparr> else s)"

definition resolveApproval :: "ApprovalDecision \<Rightarrow> Agent \<Rightarrow> Agent" where
  "resolveApproval d s =
     (case resolver s of
        None \<Rightarrow> s
      | Some p \<Rightarrow> (resolve_promise p d s)\<lparr>resolver := None\<rparr>)"

definition setMode :: "handlers \<Rightarrow> ExecutionMode \<Rightarrow> Agent \<Rightarrow> Agent" where
  "setMode H m s = emit (script H) (ModeChange m) (s\<lparr>mode := m\<rparr>)"

text \<open>The promise \<open>handleNetworkCall\<close> returns: resolved with \<open>null\<close> at once, or
  resolved with the decision of approval promise \<open>p\<close> when that one is.\<close>

datatype gate = ReturnsNull | Awaits nat

definition action_text :: "string \<Rightarrow> string \<Rightarrow> string" where
  "action_text m url = m @ '' '' @ url"

definition handleNetworkCall ::
  "handlers \<Rightarrow> string \<Rightarrow> string \<Rightarrow> nat \<Rightarrow> nat \<Rightarrow> Agent \<Rightarrow> Agent \<times> gate" where
  "handleNetworkCall H m url status now s =
     (let risk = assessRisk m url;
          s1 = emit (script H) (Network m url status now) s
      in if risk = High
         then (case requestApproval H (action_text m url, m, url, risk) s1 of
                 (s2, p) \<Rightarrow> (s2, Awaits p))
         else if risk = Medium \<and> mode s1 = EXECUTE
         then (case requestApproval H (action_text m url, m, url, risk) s1 of
                 (s2, p) \<Rightarrow> (s2, Awaits p))
         else (s1, ReturnsNull))"

text \<open>What the promise returned by \<open>handleNetworkCall\<close> has delivered in state \<open>s\<close>:
  \<open>None\<close> while it is pending.\<close>

fun delivered :: "Agent \<Rightarrow> gate \<Rightarrow> ApprovalDecision option option" where
  "delivered s ReturnsNull = Some None"
| "delivered s (Awaits p) = map_option Some (settled s p)"

text \<open>The calls a client of the agent can make, and runs of them.\<close>

datatype agent_op =
    OpOnEvent listener
  | OpOffEvent listener
  | OpEmit AgentEvent
  | OpRequestApproval payload
  | OpResolveApproval ApprovalDecision
  | OpSetMode ExecutionMode
  | OpHandleNetworkCall string string nat nat

fun apply_op :: "handlers \<Rightarrow> Agent \<Rightarrow> agent_op \<Rightarrow> Agent" where
  "apply_op H s (OpOnEvent l) = onEvent l s"
| "apply_op H s (OpOffEvent l) = offEvent l s"
| "apply_op H s (OpEmit ev) = emit (script H) ev s"
| "apply_op H s (OpRequestApproval pl) = fst (requestApproval H pl s)"
| "apply_op H s (OpResolveApproval d) = resolveApproval d s"
| "apply_op H s (OpSetMode m) = setMode H m s"
| "apply_op H s (OpHandleNetworkCall m url status now) =
     fst (handleNetworkCall H m url status now s)"

definition run_ops :: "handlers \<Rightarrow> agent_op list \<Rightarrow> Agent \<Rightarrow> Agent" where
  "run_ops H ops s = foldl (apply_op H) s ops"

text \<open>Allocation discipline of the two stores: the current listener array is
  allocated; no unallocated promise is resolved or parked.\<close>

definition heap_ok :: "Agent \<Rightarrow> bool" where
  "heap_ok s = (listeners s < next_array s)"

definition promises_ok :: "Agent \<Rightarrow> bool" where
  "promises_ok s =
     ((\<forall>p. next_promise s \<le> p \<longrightarrow> settled s p = None) \<and>
      (\<forall>p. resolver s = Some p \<longrightarrow> p < next_promise s \<and> settled s p = None))"

text \<open>The listener list as a value: what a call does to it.\<close>

fun list_call :: "listener list \<Rightarrow> listener_call \<Rightarrow> listener list" where
  "list_call xs (OnEvent l) = xs @ [l]"
| "list_call xs (OffEvent l) = filter (\<lambda>x. x \<noteq> l) xs"

definition current_listeners :: "Agent \<Rightarrow> listener list" where
  "current_listeners s = arrays s (listeners s)"

text \<open>\<open>grows a s s'\<close>: array object \<open>a\<close> is still allocated in \<open>s'\<close> and holds what it
  held in \<open>s\<close>, possibly with more elements pushed behind.\<close>

definition grows :: "nat \<Rightarrow> Agent \<Rightarrow> Agent \<Rightarrow> bool" where
  "grows a s s' = (a < next_array s' \<and> (\<exists>ys. arrays s' a = arrays s a @ ys))"

text \<open>
  A listener that acts on the agent through its methods leaves every allocated array
  object as it was, up to elements pushed behind, and allocates new ones in order:
  \<open>onEvent\<close> pushes, \<open>offEvent\<close> allocates, \<open>emit\<close> does what its listeners do, and
  the other methods do not touch the arrays.
\<close>

definition through_methods :: "effects \<Rightarrow> bool" where
  "through_methods L =
     (\<forall>l ev s. heap_ok s \<longrightarrow>
        heap_ok (L l ev s) \<and> (\<forall>a. a < next_array s \<longrightarrow> grows a s (L l ev s)))"

definition same_decisions :: "Agent \<Rightarrow> Agent \<Rightarrow> bool" where
  "same_decisions s s' =
     (resolver s' = resolver s \<and> settled s' = settled s \<and>
      next_promise s' = next_promise s \<and> mode s' = mode s)"

text \<open>Listeners that leave the agent alone.\<close>

definition quiet :: handlers where
  "quiet l ev = []"

text \<open>A promise that is pending and whose resolve function the agent no longer holds;
  and the listeners of an example, two of which subscribe and unsubscribe others
  while they run.\<close>

definition orphaned :: "nat \<Rightarrow> Agent \<Rightarrow> bool" where
  "orphaned p s = (p < next_promise s \<and> settled s p = None \<and> resolver s \<noteq> Some p)"

definition swapper :: handlers where
  "swapper l ev =
     (if l = 1 then [OnEvent 7, OffEvent 2]
      else if l = 2 then [OffEvent 1, OnEvent 9] else [])"

definition three_listeners :: Agent where
  "three_listeners = onEvent 3 (onEvent 2 (onEvent 1 new_Agent))"

text \<open>A listener that, on the event \<open>x\<close>, unsubscribes listener 2 and emits \<open>y\<close> before
  it returns.\<close>

definition reemitter :: effects where
  "reemitter l ev s =
     (if l = 1 \<and> ev = Info ''x'' then emit (script quiet) (Info ''y'') (offEvent 2 s) else s)"

section \<open>Network recorder (src/browser/networkRecorder.ts)\<close>

text \<open>
  \<open>new URL(s)\<close> is the platform's parser, a parameter \<open>P :: url_parser\<close> of
  everything that calls it: \<open>P s = None\<close> when \<open>new URL(s)\<close> throws \<open>TypeError\<close>.
\<close>

record URL =
  hostname :: string
  pathname :: string

type_synonym url_parser = "string \<Rightarrow> URL option"

datatype error = TypeError | BodyUnavailable

record RequestInfo =
  ri_method :: string
  ri_url :: string
  ri_headers :: "(string \<times> string) list"
  ri_postData :: "string option"
  ri_resourceType :: string
  ri_timestamp :: nat

text \<open>What the handler reads from a Playwright response: the identity of its request
  and that request's method, URL, status, headers, and the outcome of
  \<open>response.text()\<close>, \<open>None\<close> when it rejects.\<close>

record Response =
  rs_request :: nat
  rs_request_method :: string
  rs_url :: string
  rs_status :: nat
  rs_headers :: "(string \<times> string) list"
  rs_text :: "string option"

record CapturedCall =
  cc_method :: string
  cc_url :: string
  cc_status :: nat
  cc_requestHeaders :: "(string \<times> string) list"
  cc_responseHeaders :: "(string \<times> string) list"
  cc_requestBody :: "string option"
  cc_responseBody :: "string option"
  cc_timestamp :: nat

text \<open>The only capture listener the program installs is \<open>onCapturedCall\<close> of
  \<open>index.tsx\<close>.\<close>

datatype capture_listener = OnCapturedCall

record NetworkRecorder =
  requests :: "nat \<rightharpoonup> RequestInfo"
  captureActive :: bool
  captureBaseDomain :: "string option"
  includeThirdParty :: bool
  capturedCalls :: "CapturedCall list"
  onCapture :: "capture_listener option"

definition new_NetworkRecorder :: NetworkRecorder where
  "new_NetworkRecorder = \<lparr> requests = Map.empty, captureActive = False,
     captureBaseDomain = None, includeThirdParty = False, capturedCalls = [],
     onCapture = None \<rparr>"

text \<open>White space, as \<open>trim\<close> and \<open>\s\<close> see it in ASCII.\<close>

definition is_space :: "char \<Rightarrow> bool" where
  "is_space c = (c \<in> set [CHR 0x09, CHR 0x0A, CHR 0x0B, CHR 0x0C, CHR 0x0D, CHR '' ''])"

definition trim :: "string \<Rightarrow> string" where
  "trim s = rev (dropWhile is_space (rev (dropWhile is_space s)))"

text \<open>The string appended on truncation, as the template literal of
  \<open>networkRecorder.ts\<close> has it: the characters U+00E2, U+20AC, U+00A6, in UTF-8.\<close>

definition ellipsis :: string where
  "ellipsis = [CHR 0xC3, CHR 0xA2, CHR 0xE2, CHR 0x82, CHR 0xAC, CHR 0xC2, CHR 0xA6]"

definition truncate_str :: "string option \<Rightarrow> string option" where
  "truncate_str v =
     (case v of
        None \<Rightarrow> None
      | Some value \<Rightarrow>
          if value = [] then None
          else let trimmed = trim value in
               if length trimmed \<le> 20000 then Some trimmed
               else Some (take 20000 trimmed @ ellipsis))"

text \<open>\<open>host.split(".")\<close> and \<open>parts.join(".")\<close>.\<close>

fun split_on :: "char \<Rightarrow> string \<Rightarrow> string list" where
  "split_on c [] = [[]]"
| "split_on c (x # xs) =
     (if x = c then [] # split_on c xs
      else (case split_on c xs of
              [] \<Rightarrow> [[x]]
            | w # ws \<Rightarrow> (x # w) # ws))"

fun join :: "string \<Rightarrow> string list \<Rightarrow> string" where
  "join sep [] = []"
| "join sep [w] = w"
| "join sep (w # ws) = w @ sep @ join sep ws"

definition getBaseDomain :: "url_parser \<Rightarrow> string \<Rightarrow> error + string" where
  "getBaseDomain P url =
     (case P url of
        None \<Rightarrow> Inl TypeError
      | Some u \<Rightarrow>
          let host = hostname u;
              parts = filter (\<lambda>w. w \<noteq> []) (split_on CHR ''.'' host)
          in if length parts \<le> 2 then Inr host
             else Inr (join ''.'' (drop (length parts - 2) parts)))"

definition isSameSite :: "string \<Rightarrow> string \<Rightarrow> bool" where
  "isSameSite host baseDomain = (host = baseDomain \<or> endsWith host (''.'' @ baseDomain))"

text \<open>A string or \<open>null\<close> in a condition: \<open>null\<close> and the empty string are falsy.\<close>

definition truthy :: "string option \<Rightarrow> bool" where
  "truthy v = (case v of None \<Rightarrow> False | Some x \<Rightarrow> x \<noteq> [])"

definition shouldCapture :: "url_parser \<Rightarrow> NetworkRecorder \<Rightarrow> RequestInfo \<Rightarrow> error + bool" where
  "shouldCapture P r info =
     (let resourceType = ri_resourceType info in
      if resourceType \<noteq> ''xhr'' \<and> resourceType \<noteq> ''fetch'' then Inr False
      else if \<not> includeThirdParty r \<and> truthy (captureBaseDomain r)
      then (case captureBaseDomain r of
              None \<Rightarrow> Inr True
            | Some baseDomain \<Rightarrow>
                (case P (ri_url info) of
                   None \<Rightarrow> Inl TypeError
                 | Some u \<Rightarrow>
                     if \<not> isSameSite (hostname u) baseDomain then Inr False
                     else Inr True))
      else Inr True)"

text \<open>The body of the \<open>try\<close> block of \<open>safeResponseBody\<close>, and the function with its
  \<open>catch\<close>.\<close>

definition safeResponseBody_try :: "Response \<Rightarrow> error + string option" where
  "safeResponseBody_try response =
     (let contentType =
            (case map_of (rs_headers response) ''content-type'' of
               None \<Rightarrow> []
             | Some v \<Rightarrow> v)
      in if \<not> includes_str contentType ''application/json'' \<and>
            \<not> includes_str contentType ''text/plain''
         then Inr None
         else (case rs_text response of
                 None \<Rightarrow> Inl BodyUnavailable
               | Some text \<Rightarrow> Inr (truncate_str (Some text))))"

definition safeResponseBody :: "Response \<Rightarrow> string option" where
  "safeResponseBody response =
     (case safeResponseBody_try response of Inl e \<Rightarrow> None | Inr body \<Rightarrow> body)"

text \<open>Whether \<open>safeResponseBody\<close> gets as far as \<open>await response.text()\<close>: the
  content type is JSON or plain text.\<close>

definition reads_body :: "Response \<Rightarrow> bool" where
  "reads_body response =
     (let contentType =
            (case map_of (rs_headers response) ''content-type'' of
               None \<Rightarrow> []
             | Some v \<Rightarrow> v)
      in includes_str contentType ''application/json'' \<or>
         includes_str contentType ''text/plain'')"

text \<open>\<open>startCapture\<close> assigns three fields before \<open>getBaseDomain\<close> can throw.\<close>

definition startCapture ::
  "url_parser \<Rightarrow> string \<Rightarrow> bool \<Rightarrow> NetworkRecorder \<Rightarrow> NetworkRecorder \<times> error option" where
  "startCapture P baseUrl third r =
     (let r1 = r\<lparr>captureActive := True, capturedCalls := [], includeThirdParty := third\<rparr>
      in case getBaseDomain P baseUrl of
           Inl e \<Rightarrow> (r1, Some e)
         | Inr d \<Rightarrow> (r1\<lparr>captureBaseDomain := Some d\<rparr>, None))"

definition stopCapture :: "NetworkRecorder \<Rightarrow> NetworkRecorder" where
  "stopCapture r = r\<lparr>captureActive := False\<rparr>"

definition setCaptureListener ::
  "capture_listener option \<Rightarrow> NetworkRecorder \<Rightarrow> NetworkRecorder" where
  "setCaptureListener l r = r\<lparr>onCapture := l\<rparr>"

section \<open>Session accumulator (src/index.tsx)\<close>

record Session =
  captureUniqueKeys :: "string set"
  sessionCalls :: "CapturedCall list"
  session_captureActive :: bool

definition new_Session :: Session where
  "new_Session = \<lparr> captureUniqueKeys = {}, sessionCalls = [], session_captureActive = False \<rparr>"

definition getApiKey :: "url_parser \<Rightarrow> CapturedCall \<Rightarrow> string" where
  "getApiKey P call =
     (case P (cc_url call) of
        Some parsed \<Rightarrow> cc_method call @ '' '' @ hostname parsed @ pathname parsed
      | None \<Rightarrow> cc_method call @ '' '' @ cc_url call)"

definition onCapturedCall :: "url_parser \<Rightarrow> CapturedCall \<Rightarrow> Session \<Rightarrow> Session" where
  "onCapturedCall P call ss =
     (let key = getApiKey P call in
      if key \<notin> captureUniqueKeys ss
      then ss\<lparr>captureUniqueKeys := insert key (captureUniqueKeys ss),
              sessionCalls := sessionCalls ss @ [call]\<rparr>
      else ss)"

section \<open>The response handler and the capture session\<close>

text \<open>
  The response handler is an \<open>async\<close> function. It runs up to
  \<open>await this.agent.handleNetworkCall(...)\<close>; when that promise waits for an approval the
  handler is parked with what it has read so far (the request record and the method) and
  resumes when the approval promise is resolved. After the capture test it runs up to
  \<open>await this.safeResponseBody(response)\<close>; when that reads the body the handler waits
  again, with the request record and the method, until \<open>response.text()\<close> has settled,
  and only then builds the call, pushes it and calls the listener. A promise that is
  already resolved resumes its handler before any other event is handled.
  \<open>rejections\<close> collects the exceptions that leave a handler, and \<open>deliveries\<close> the
  calls pushed, each with whether a capture listener was installed then.
\<close>

type_synonym parked_handler = "nat \<times> Response \<times> RequestInfo option \<times> string"

type_synonym reading_handler = "Response \<times> RequestInfo \<times> string"

record System =
  agent :: Agent
  recorder :: NetworkRecorder
  session :: Session
  parked :: "parked_handler list"
  reading :: "reading_handler list"
  rejections :: "error list"
  deliveries :: "(CapturedCall \<times> bool) list"

definition new_System :: System where
  "new_System = \<lparr> agent = new_Agent, recorder = new_NetworkRecorder,
     session = new_Session, parked = [], reading = [], rejections = [],
     deliveries = [] \<rparr>"

datatype handler_result = Completed | Rejected error | Suspended nat | Reading

definition on_request :: "nat \<Rightarrow> RequestInfo \<Rightarrow> System \<Rightarrow> System" where
  "on_request request info s =
     s\<lparr>recorder := (recorder s)\<lparr>requests := (requests (recorder s))(request \<mapsto> info)\<rparr>\<rparr>"

text \<open>\<open>info?.method || request.method() || "GET"\<close>\<close>

definition response_method :: "RequestInfo option \<Rightarrow> Response \<Rightarrow> string" where
  "response_method info response =
     (let fallback = (if rs_request_method response \<noteq> [] then rs_request_method response
                      else ''GET'')
      in case info of
           None \<Rightarrow> fallback
         | Some i \<Rightarrow> if ri_method i \<noteq> [] then ri_method i else fallback)"

definition build_call :: "string \<Rightarrow> Response \<Rightarrow> RequestInfo \<Rightarrow> nat \<Rightarrow> CapturedCall" where
  "build_call method response info now =
     \<lparr> cc_method = method, cc_url = rs_url response, cc_status = rs_status response,
       cc_requestHeaders = ri_headers info, cc_responseHeaders = rs_headers response,
       cc_requestBody =
         truncate_str (case ri_postData info of
                     None \<Rightarrow> None
                   | Some d \<Rightarrow> if d = [] then None else Some d),
       cc_responseBody = safeResponseBody response,
       cc_timestamp = now \<rparr>"

text \<open>\<open>this.capturedCalls.push(call); if (this.onCapture) this.onCapture(call)\<close>\<close>

definition deliver :: "url_parser \<Rightarrow> System \<Rightarrow> CapturedCall \<Rightarrow> System" where
  "deliver P s call =
     (let s1 = s\<lparr>recorder := (recorder s)\<lparr>capturedCalls := capturedCalls (recorder s) @ [call]\<rparr>,
                deliveries := deliveries s @ [(call, onCapture (recorder s) \<noteq> None)]\<rparr>
      in case onCapture (recorder s1) of
           None \<Rightarrow> s1
         | Some OnCapturedCall \<Rightarrow> s1\<lparr>session := onCapturedCall P call (session s1)\<rparr>)"

text \<open>The handler from the statement after the first \<open>await\<close> to the second: the
  capture test, and then either the wait for the body or, when \<open>safeResponseBody\<close>
  reads none, the call. In the second case the awaited promise is settled already and
  the handler goes on within the same turn of the event loop, before another page event,
  timer or user answer is handled, so the test and the push are one step here; a body
  that is read arrives in a later turn, and the handler waits in \<open>reading\<close> for it.\<close>

definition after_gate ::
  "url_parser \<Rightarrow> nat \<Rightarrow> string \<Rightarrow> Response \<Rightarrow> RequestInfo option \<Rightarrow> System
     \<Rightarrow> System \<times> handler_result" where
  "after_gate P now method response info s =
     (if \<not> captureActive (recorder s) \<or> info = None then (s, Completed)
      else case info of
             None \<Rightarrow> (s, Completed)
           | Some i \<Rightarrow>
               (case shouldCapture P (recorder s) i of
                  Inl e \<Rightarrow> (s, Rejected e)
                | Inr ok \<Rightarrow>
                    if \<not> ok then (s, Completed)
                    else if reads_body response
                    then (s\<lparr>reading := reading s @ [(response, i, method)]\<rparr>, Reading)
                    else (deliver P s (build_call method response i now), Completed)))"

text \<open>The handler from the second \<open>await\<close> on, when \<open>response.text()\<close> has settled:
  no test is made again. \<open>body_read k\<close> is that for the handler in position \<open>k\<close>
  of those waiting for a body.\<close>

definition finish_read :: "url_parser \<Rightarrow> nat \<Rightarrow> System \<Rightarrow> reading_handler \<Rightarrow> System" where
  "finish_read P now s h =
     (case h of (response, i, method) \<Rightarrow> deliver P s (build_call method response i now))"

definition body_read :: "url_parser \<Rightarrow> nat \<Rightarrow> nat \<Rightarrow> System \<Rightarrow> System" where
  "body_read P k now s =
     (if k < length (reading s)
      then finish_read P now (s\<lparr>reading := take k (reading s) @ drop (Suc k) (reading s)\<rparr>)
             (reading s ! k)
      else s)"

definition on_response ::
  "url_parser \<Rightarrow> handlers \<Rightarrow> nat \<Rightarrow> Response \<Rightarrow> System \<Rightarrow> System \<times> handler_result" where
  "on_response P H now response s =
     (let info = requests (recorder s) (rs_request response);
          method = response_method info response
      in case handleNetworkCall H method (rs_url response) (rs_status response) now (agent s) of
           (a, ReturnsNull) \<Rightarrow> after_gate P now method response info (s\<lparr>agent := a\<rparr>)
         | (a, Awaits p) \<Rightarrow>
             (s\<lparr>agent := a, parked := parked s @ [(p, response, info, method)]\<rparr>,
              Suspended p))"

definition note_result :: "System \<times> handler_result \<Rightarrow> System" where
  "note_result sr =
     (case sr of
        (s, Rejected e) \<Rightarrow> s\<lparr>rejections := rejections s @ [e]\<rparr>
      | (s, _) \<Rightarrow> s)"

definition resume :: "url_parser \<Rightarrow> nat \<Rightarrow> System \<Rightarrow> parked_handler \<Rightarrow> System" where
  "resume P now s h =
     (case h of (p, response, info, method) \<Rightarrow>
        note_result (after_gate P now method response info s))"

text \<open>The user interface calls \<open>agent.resolveApproval(decision)\<close>; the handlers whose
  promise is resolved by it resume, in the order they were parked.\<close>

definition resolve_approval ::
  "url_parser \<Rightarrow> ApprovalDecision \<Rightarrow> nat \<Rightarrow> System \<Rightarrow> System" where
  "resolve_approval P d now s =
     (let a = resolveApproval d (agent s);
          ready = filter (\<lambda>h. settled a (fst h) \<noteq> None) (parked s);
          waiting = filter (\<lambda>h. settled a (fst h) = None) (parked s)
      in foldl (resume P now) (s\<lparr>agent := a, parked := waiting\<rparr>) ready)"

text \<open>\<open>startCaptureSession\<close> and \<open>finalizeCapture\<close> of \<open>index.tsx\<close>, with the browser
  launched; \<open>url\<close> is the address the program was started on.\<close>

definition startCaptureSession :: "url_parser \<Rightarrow> string \<Rightarrow> System \<Rightarrow> System" where
  "startCaptureSession P url s =
     (if session_captureActive (session s) then s
      else let s1 = s\<lparr>session := (session s)\<lparr>session_captureActive := True\<rparr>\<rparr>
           in case startCapture P url False (recorder s1) of
                (r, Some e) \<Rightarrow> s1\<lparr>recorder := r, rejections := rejections s1 @ [e]\<rparr>
              | (r, None) \<Rightarrow> s1\<lparr>recorder := setCaptureListener (Some OnCapturedCall) r\<rparr>)"

definition finalizeCapture :: "System \<Rightarrow> System" where
  "finalizeCapture s =
     (if \<not> session_captureActive (session s) then s
      else s\<lparr>session := (session s)\<lparr>session_captureActive := False\<rparr>,
             recorder := setCaptureListener None (stopCapture (recorder s))\<rparr>)"

datatype sys_event =
    EvRequest nat RequestInfo
  | EvResponse Response nat
  | EvResolveApproval ApprovalDecision nat
  | EvBodyRead nat nat
  | EvStartCaptureSession
  | EvFinalizeCapture
  | EvSetMode ExecutionMode

fun step :: "url_parser \<Rightarrow> handlers \<Rightarrow> string \<Rightarrow> System \<Rightarrow> sys_event \<Rightarrow> System" where
  "step P H url s (EvRequest request info) = on_request request info s"
| "step P H url s (EvResponse response now) = note_result (on_response P H now response s)"
| "step P H url s (EvResolveApproval d now) = resolve_approval P d now s"
| "step P H url s (EvBodyRead k now) = body_read P k now s"
| "step P H url s EvStartCaptureSession = startCaptureSession P url s"
| "step P H url s EvFinalizeCapture = finalizeCapture s"
| "step P H url s (EvSetMode m) = s\<lparr>agent := setMode H m (agent s)\<rparr>"

definition run :: "url_parser \<Rightarrow> handlers \<Rightarrow> string \<Rightarrow> sys_event list \<Rightarrow> System \<Rightarrow> System" where
  "run P H url evs s = foldl (step P H url) s evs"

text \<open>The inclusion filter as a condition on the recorder and the request record.\<close>

definition same_site_ok :: "url_parser \<Rightarrow> NetworkRecorder \<Rightarrow> RequestInfo \<Rightarrow> bool" where
  "same_site_ok P r i =
     (case (P (ri_url i), captureBaseDomain r) of
        (Some u, Some d) \<Rightarrow> isSameSite (hostname u) d
      | _ \<Rightarrow> False)"

definition resource_ok :: "RequestInfo \<Rightarrow> bool" where
  "resource_ok i = (ri_resourceType i = ''xhr'' \<or> ri_resourceType i = ''fetch'')"

text \<open>The conditions as claim C3 words them: capture active, a request record, an
  xhr or fetch resource, and the same site unless third parties are included.\<close>

definition claimed_capture :: "url_parser \<Rightarrow> NetworkRecorder \<Rightarrow> RequestInfo option \<Rightarrow> bool" where
  "claimed_capture P r info =
     (captureActive r \<and>
      (case info of
         None \<Rightarrow> False
       | Some i \<Rightarrow> resource_ok i \<and> (includeThirdParty r \<or> same_site_ok P r i)))"

text \<open>The conditions the handler tests: the same, except that no site test is made
  when no base domain is configured (\<open>null\<close> or empty).\<close>

definition captures :: "url_parser \<Rightarrow> NetworkRecorder \<Rightarrow> RequestInfo option \<Rightarrow> bool" where
  "captures P r info =
     (captureActive r \<and>
      (case info of
         None \<Rightarrow> False
       | Some i \<Rightarrow>
           resource_ok i \<and>
           (includeThirdParty r \<or> \<not> truthy (captureBaseDomain r) \<or> same_site_ok P r i)))"

text \<open>A parser for the URLs of the examples,
  \<open>scheme://host[:port][/path][?query][#fragment]\<close>; it rejects every other string.\<close>

definition simple_url :: url_parser where
  "simple_url s =
     (let scheme = takeWhile (\<lambda>c. c \<noteq> CHR '':'') s;
          rest = drop (length scheme) s
      in if scheme = [] \<or> \<not> startsWith rest ''://'' then None
         else let after = drop 3 rest;
                  authority = takeWhile (\<lambda>c. c \<notin> set ''/?#'') after;
                  tail = drop (length authority) after;
                  host = toLowerCase (takeWhile (\<lambda>c. c \<noteq> CHR '':'') authority);
                  path = takeWhile (\<lambda>c. c \<notin> set ''?#'') tail
              in if host = [] then None
                 else Some \<lparr> hostname = host,
                             pathname = (if path = [] then ''/'' else path) \<rparr>)"

text \<open>Requests and responses of the examples.\<close>

definition xhr_request :: "string \<Rightarrow> string \<Rightarrow> RequestInfo" where
  "xhr_request m u = \<lparr> ri_method = m, ri_url = u, ri_headers = [], ri_postData = None,
     ri_resourceType = ''xhr'', ri_timestamp = 0 \<rparr>"

definition json_response :: "nat \<Rightarrow> string \<Rightarrow> string \<Rightarrow> Response" where
  "json_response request m u = \<lparr> rs_request = request, rs_request_method = m, rs_url = u,
     rs_status = 200, rs_headers = [(''content-type'', ''application/json'')],
     rs_text = Some ''{}'' \<rparr>"

text \<open>The call of a handler that runs on from the first \<open>await\<close> with recorder \<open>r\<close>
  and passes the capture test, and the same handler as one waiting for its body.\<close>

definition appended ::
  "url_parser \<Rightarrow> nat \<Rightarrow> string \<Rightarrow> Response \<Rightarrow> RequestInfo option \<Rightarrow> NetworkRecorder
     \<Rightarrow> CapturedCall list" where
  "appended P now method response info r =
     (case info of
        None \<Rightarrow> []
      | Some i \<Rightarrow> if captures P r info then [build_call method response i now] else [])"

definition queued ::
  "url_parser \<Rightarrow> string \<Rightarrow> Response \<Rightarrow> RequestInfo option \<Rightarrow> NetworkRecorder
     \<Rightarrow> reading_handler list" where
  "queued P method response info r =
     (case info of
        None \<Rightarrow> []
      | Some i \<Rightarrow> if captures P r info then [(response, i, method)] else [])"

text \<open>A capture session on \<open>https://x.com\<close> with two \<open>DELETE\<close> calls from the page, the
  user answering the approval prompt twice, and the body of the answered call read.\<close>

definition delete_requested :: "sys_event list" where
  "delete_requested =
     [EvStartCaptureSession,
      EvRequest 1 (xhr_request ''DELETE'' ''https://x.com/1'')]"

definition delete_once :: "sys_event list" where
  "delete_once = delete_requested @
     [EvResponse (json_response 1 ''DELETE'' ''https://x.com/1'') 5]"

definition delete_twice :: "sys_event list" where
  "delete_twice = delete_once @
     [EvRequest 2 (xhr_request ''DELETE'' ''https://x.com/2''),
      EvResponse (json_response 2 ''DELETE'' ''https://x.com/2'') 6,
      EvResolveApproval Yes 7, EvResolveApproval Yes 8, EvBodyRead 0 9]"

text \<open>A capture session on \<open>https://x.com\<close> in which the page has requested
  \<open>GET https://x.com/api/items\<close>.\<close>

definition items_requested :: System where
  "items_requested =
     run simple_url quiet ''https://x.com''
       [EvStartCaptureSession, EvRequest 1 (xhr_request ''GET'' ''https://x.com/api/items'')]
       new_System"

definition items_response :: Response where
  "items_response = json_response 1 ''GET'' ''https://x.com/api/items''"

text \<open>The same response with a content type whose body is not read.\<close>

definition items_page :: Response where
  "items_page = items_response\<lparr>rs_headers := [(''content-type'', ''text/html'')]\<rparr>"

text \<open>The session's two fields agree: one retained call per key, no key twice.\<close>

definition dedup_inv :: "url_parser \<Rightarrow> Session \<Rightarrow> bool" where
  "dedup_inv P ss =
     (distinct (map (getApiKey P) (sessionCalls ss)) \<and>
      set (map (getApiKey P) (sessionCalls ss)) = captureUniqueKeys ss)"

text \<open>The calls of a list whose key is not in \<open>seen\<close> and occurs for the first time.\<close>

fun first_occurrences :: "url_parser \<Rightarrow> string set \<Rightarrow> CapturedCall list \<Rightarrow> CapturedCall list" where
  "first_occurrences P seen [] = []"
| "first_occurrences P seen (c # cs) =
     (if getApiKey P c \<in> seen then first_occurrences P seen cs
      else c # first_occurrences P (insert (getApiKey P c) seen) cs)"

text \<open>Two calls that differ in the query only, as in the specification, and a call
  to another endpoint. The body of the second call is read first.\<close>

definition items_twice :: "sys_event list" where
  "items_twice =
     [EvStartCaptureSession,
      EvRequest 1 (xhr_request ''GET'' ''https://x.com/api/items?x=1''),
      EvResponse (json_response 1 ''GET'' ''https://x.com/api/items?x=1'') 5,
      EvRequest 2 (xhr_request ''GET'' ''https://x.com/api/items?x=2''),
      EvResponse (json_response 2 ''GET'' ''https://x.com/api/items?x=2'') 6,
      EvRequest 3 (xhr_request ''GET'' ''https://x.com/api/users''),
      EvResponse (json_response 3 ''GET'' ''https://x.com/api/users'') 7,
      EvBodyRead 1 8, EvBodyRead 0 9, EvBodyRead 0 10]"

text \<open>A request whose URL does not parse, in a capture session on \<open>https://x.com\<close>.\<close>

definition malformed_requested :: System where
  "malformed_requested =
     run simple_url quiet ''https://x.com''
       [EvStartCaptureSession, EvRequest 1 (xhr_request ''GET'' ''not a url'')]
       new_System"

definition capture_started :: System where
  "capture_started = run simple_url quiet ''https://x.com'' [EvStartCaptureSession] new_System"

definition items_call :: "string \<Rightarrow> CapturedCall" where
  "items_call query =
     \<lparr> cc_method = ''GET'', cc_url = ''https://x.com/api/items?x='' @ query, cc_status = 200,
       cc_requestHeaders = [], cc_responseHeaders = [], cc_requestBody = None,
       cc_responseBody = None, cc_timestamp = 5 \<rparr>"

definition users_call :: CapturedCall where
  "users_call =
     \<lparr> cc_method = ''GET'', cc_url = ''https://x.com/api/users'', cc_status = 200,
       cc_requestHeaders = [], cc_responseHeaders = [], cc_requestBody = None,
       cc_responseBody = None, cc_timestamp = 5 \<rparr>"

text \<open>What the two lists of a state hold: the URLs of the recorder's calls and of the
  session's.\<close>

definition captured_urls :: "System \<Rightarrow> string list \<times> string list" where
  "captured_urls s =
     (map cc_url (capturedCalls (recorder s)), map cc_url (sessionCalls (session s)))"

text \<open>Parked handlers wait on allocated, pending promises, each on its own.\<close>

definition parked_ok :: "System \<Rightarrow> bool" where
  "parked_ok s =
     (promises_ok (agent s) \<and>
      (\<forall>h \<in> set (parked s). fst h < next_promise (agent s) \<and> settled (agent s) (fst h) = None) \<and>
      distinct (map fst (parked s)))"

text \<open>What \<open>resolveApproval(d)\<close> from the user interface does to the parked handlers
  of a state: nothing with an empty approval slot; otherwise the handler parked on the
  promise in the slot, at most one, resumes.\<close>

definition resumed_on_answer :: "url_parser \<Rightarrow> ApprovalDecision \<Rightarrow> nat \<Rightarrow> System \<Rightarrow> bool" where
  "resumed_on_answer P d t s =
     (case resolver (agent s) of
        None \<Rightarrow> resolve_approval P d t s = s
      | Some q \<Rightarrow>
          resolve_approval P d t s =
            foldl (resume P t)
              (s\<lparr>agent := resolveApproval d (agent s),
                 parked := filter (\<lambda>h. fst h \<noteq> q) (parked s)\<rparr>)
              (filter (\<lambda>h. fst h = q) (parked s)) \<and>
          length (filter (\<lambda>h. fst h = q) (parked s)) \<le> 1)"

text \<open>The calls that were passed to the capture listener, in the order they were.\<close>

definition listened :: "(CapturedCall \<times> bool) list \<Rightarrow> CapturedCall list" where
  "listened ds = map fst (filter snd ds)"

text \<open>The session's list is what first occurrences leave of the calls the listener was
  passed, and the recorder's list is the tail of the calls pushed.\<close>

definition session_log :: "url_parser \<Rightarrow> System \<Rightarrow> bool" where
  "session_log P s =
     (sessionCalls (session s) = first_occurrences P {} (listened (deliveries s)) \<and>
      captureUniqueKeys (session s) = set (map (getApiKey P) (listened (deliveries s))) \<and>
      capturedCalls (recorder s) =
        drop (length (deliveries s) - length (capturedCalls (recorder s)))
          (map fst (deliveries s)) \<and>
      length (capturedCalls (recorder s)) \<le> length (deliveries s))"

text \<open>A call and the parse of its URL in which the three parts of the key can be told
  apart: no space in the method, no slash in the host name, a path that begins with
  one.\<close>

definition plain_endpoint :: "CapturedCall \<Rightarrow> URL \<Rightarrow> bool" where
  "plain_endpoint c u =
     (CHR '' '' \<notin> set (cc_method c) \<and> CHR ''/'' \<notin> set (hostname u) \<and>
      take 1 (pathname u) = ''/'')"

section \<open>Exploration (src/index.tsx, exploreVisiblePages)\<close>

text \<open>
  \<open>/(logout|sign\s*out|delete|remove|unsubscribe|checkout|payment|order|purchase|buy)/i\<close>.
  \<open>\s*\<close> is followed by the letter \<open>o\<close>, so it takes the whole run of white space.
\<close>

definition sign_out_at :: "string \<Rightarrow> bool" where
  "sign_out_at t =
     (startsWith t ''sign'' \<and> startsWith (dropWhile is_space (drop 4 t)) ''out'')"

definition unsafe_words :: "string list" where
  "unsafe_words =
     [''logout'', ''delete'', ''remove'', ''unsubscribe'', ''checkout'', ''payment'',
      ''order'', ''purchase'', ''buy'']"

definition isUnsafeLabel :: "string \<Rightarrow> bool" where
  "isUnsafeLabel label =
     (let l = toLowerCase label in
      anywhere sign_out_at l \<or> (\<exists>w \<in> set unsafe_words. includes_str l w))"

record Candidate =
  label :: string
  href :: "string option"

text \<open>\<open>candidate.href\<close> in a condition: a missing or empty \<open>href\<close> is falsy.\<close>

definition isRiskyNavigation :: "url_parser \<Rightarrow> string \<Rightarrow> Candidate \<Rightarrow> bool" where
  "isRiskyNavigation P url candidate =
     (if isUnsafeLabel (label candidate) then True
      else if \<not> truthy (href candidate) then False
      else (case href candidate of
              None \<Rightarrow> False
            | Some h \<Rightarrow>
                (case P h of
                   None \<Rightarrow> True
                 | Some target \<Rightarrow>
                     (case P url of
                        None \<Rightarrow> True
                      | Some base \<Rightarrow>
                          hostname target \<noteq> hostname base \<and>
                          \<not> endsWith (hostname target) (''.'' @ hostname base)))))"

datatype Priority = PHigh | PMedium | PLow

text \<open>The plan of the reasoning service, as far as the loop reads it:
  \<open>prioritizedPages\<close> (label, priority) and the labels of \<open>skipReasons\<close>.\<close>

record Plan =
  prioritizedPages :: "(string \<times> Priority) list"
  skipReasons :: "string list"

definition priorityOrder :: "Plan \<Rightarrow> (string \<times> Priority) list" where
  "priorityOrder plan =
     filter (\<lambda>p. snd p = PHigh) (prioritizedPages plan) @
     filter (\<lambda>p. snd p = PMedium) (prioritizedPages plan) @
     filter (\<lambda>p. snd p = PLow) (prioritizedPages plan)"

text \<open>The two loops that build \<open>orderedCandidates\<close>, on the pair
  (\<open>orderedCandidates\<close>, \<open>usedLabels\<close>).\<close>

definition add_planned ::
  "Candidate list \<Rightarrow> Candidate list \<times> string set \<Rightarrow> string \<times> Priority
     \<Rightarrow> Candidate list \<times> string set" where
  "add_planned candidates acc pp =
     (case find (\<lambda>c. toLowerCase (label c) = toLowerCase (fst pp) \<and>
                      toLowerCase (label c) \<notin> snd acc) candidates of
        None \<Rightarrow> acc
      | Some match \<Rightarrow> (fst acc @ [match], insert (toLowerCase (label match)) (snd acc)))"

definition add_remaining ::
  "Candidate list \<times> string set \<Rightarrow> Candidate \<Rightarrow> Candidate list \<times> string set" where
  "add_remaining acc c =
     (if toLowerCase (label c) \<notin> snd acc
      then (fst acc @ [c], insert (toLowerCase (label c)) (snd acc))
      else acc)"

definition orderedCandidates :: "Plan \<Rightarrow> Candidate list \<Rightarrow> Candidate list" where
  "orderedCandidates plan candidates =
     fst (foldl add_remaining
            (foldl (add_planned candidates) ([], {}) (priorityOrder plan))
            candidates)"

datatype ActionDecision = ActYes | ActNo

text \<open>
  What the browser and the user do at the candidate in position \<open>i\<close> of the ordered
  list: the answer to \<open>requestActionDecision\<close>, \<open>None\<close> when it never comes; whether
  the navigation call (\<open>navigateSoft\<close> or \<open>performSuggestedAction\<close>) returns rather than
  throws; whether the calls after it (screenshot, page context, going back) return.
\<close>

record Environment =
  decides :: "nat \<Rightarrow> ActionDecision option"
  navigates :: "nat \<Rightarrow> bool"
  completes :: "nat \<Rightarrow> bool"

text \<open>\<open>explored\<close> and \<open>visited\<close> are the loop's variables; \<open>attempts\<close> lists the
  candidates a navigation call was made for and \<open>navigated\<close> those for which it
  returned.\<close>

record Exploration =
  explored :: nat
  visited :: "string set"
  attempts :: "Candidate list"
  navigated :: "Candidate list"

definition new_Exploration :: Exploration where
  "new_Exploration = \<lparr> explored = 0, visited = {}, attempts = [], navigated = [] \<rparr>"

datatype ending = Finished | Stalled | Aborted

text \<open>The navigation inside \<open>try\<close>: \<open>None\<close> when it throws.\<close>

definition navigate_to :: "Environment \<Rightarrow> nat \<Rightarrow> Candidate \<Rightarrow> Exploration \<Rightarrow> Exploration option" where
  "navigate_to env i candidate st =
     (if \<not> navigates env i then None
      else if truthy (href candidate)
      then (case href candidate of
              None \<Rightarrow> Some st
            | Some h \<Rightarrow> Some (st\<lparr>visited := insert h (visited st)\<rparr>))
      else Some st)"

fun visit_loop ::
  "url_parser \<Rightarrow> string \<Rightarrow> string set \<Rightarrow> Environment \<Rightarrow> nat \<Rightarrow> Candidate list \<Rightarrow> Exploration
     \<Rightarrow> Exploration \<times> ending" where
  "visit_loop P url skipLabels env i [] st = (st, Finished)"
| "visit_loop P url skipLabels env i (candidate # rest) st =
     (if explored st \<ge> 8 then (st, Finished)
      else if isUnsafeLabel (label candidate)
      then visit_loop P url skipLabels env (Suc i) rest st
      else if toLowerCase (label candidate) \<in> skipLabels \<and> \<not> isRiskyNavigation P url candidate
      then visit_loop P url skipLabels env (Suc i) rest st
      else if truthy (href candidate) \<and> (\<exists>h \<in> visited st. href candidate = Some h)
      then visit_loop P url skipLabels env (Suc i) rest st
      else if isRiskyNavigation P url candidate \<and> decides env i = None
      then (st, Stalled)
      else if isRiskyNavigation P url candidate \<and> decides env i \<noteq> Some ActYes
      then visit_loop P url skipLabels env (Suc i) rest st
      else (case navigate_to env i candidate (st\<lparr>attempts := attempts st @ [candidate]\<rparr>) of
              None \<Rightarrow>
                visit_loop P url skipLabels env (Suc i) rest
                  (st\<lparr>attempts := attempts st @ [candidate]\<rparr>)
            | Some st1 \<Rightarrow>
                (let st2 = st1\<lparr>explored := explored st1 + 1,
                               navigated := navigated st1 @ [candidate]\<rparr>
                 in if \<not> completes env i then (st2, Aborted)
                    else visit_loop P url skipLabels env (Suc i) rest st2)))"

definition exploreVisiblePages ::
  "url_parser \<Rightarrow> string \<Rightarrow> Plan \<Rightarrow> Environment \<Rightarrow> Candidate list \<Rightarrow> Exploration \<times> ending" where
  "exploreVisiblePages P url plan env candidates =
     (if candidates = [] then (new_Exploration, Finished)
      else visit_loop P url (set (map toLowerCase (skipReasons plan))) env 0
             (orderedCandidates plan candidates) new_Exploration)"

text \<open>The \<open>href\<close>s of the candidates in a list.\<close>

definition hrefs_of :: "Candidate list \<Rightarrow> string set" where
  "hrefs_of cs = {h. \<exists>c \<in> set cs. href c = Some h \<and> h \<noteq> []}"

text \<open>A page of links \<open>p0\<close>, \<open>p1\<close>, ... on the site, and a browser in which exactly the
  first navigation fails.\<close>

definition link :: "string \<Rightarrow> Candidate" where
  "link name = \<lparr> label = name, href = Some (''https://x.com/'' @ name) \<rparr>"

definition ten_links :: "Candidate list" where
  "ten_links = map link [''p0'', ''p1'', ''p2'', ''p3'', ''p4'', ''p5'', ''p6'', ''p7'', ''p8'', ''p9'']"

definition first_fails :: Environment where
  "first_fails = \<lparr> decides = (\<lambda>i. Some ActYes), navigates = (\<lambda>i. i \<noteq> 0),
     completes = (\<lambda>i. True) \<rparr>"

definition no_plan :: Plan where
  "no_plan = \<lparr> prioritizedPages = [], skipReasons = [] \<rparr>"

text \<open>A plan that ranks a \<open>Delete account\<close> link first, on a page that has it.\<close>

definition delete_first :: Plan where
  "delete_first = \<lparr> prioritizedPages = [(''Delete account'', PHigh), (''p1'', PLow)],
     skipReasons = [] \<rparr>"

definition with_delete :: "Candidate list" where
  "with_delete = [link ''p0'', \<lparr> label = ''Delete account'', href = Some ''https://x.com/del'' \<rparr>,
     link ''p1'']"

definition all_fine :: Environment where
  "all_fine = \<lparr> decides = (\<lambda>i. Some ActYes), navigates = (\<lambda>i. True),
     completes = (\<lambda>i. True) \<rparr>"

text \<open>What holds of the loop's state throughout a run.\<close>

definition budget_inv :: "Exploration \<Rightarrow> bool" where
  "budget_inv st =
     (explored st = length (navigated st) \<and> explored st \<le> 8 \<and>
      visited st = hrefs_of (navigated st) \<and>
      set (navigated st) \<subseteq> set (attempts st) \<and>
      (\<forall>c \<in> set (attempts st). \<not> isUnsafeLabel (label c)))"

text \<open>The candidate in position \<open>i\<close> gets as far as the navigation call.\<close>

definition reaches_navigation ::
  "url_parser \<Rightarrow> string \<Rightarrow> string set \<Rightarrow> Environment \<Rightarrow> nat \<Rightarrow> Candidate \<Rightarrow> Exploration \<Rightarrow> bool" where
  "reaches_navigation P url skipLabels env i candidate st =
     (explored st < 8 \<and> \<not> isUnsafeLabel (label candidate) \<and>
      \<not> (toLowerCase (label candidate) \<in> skipLabels \<and> \<not> isRiskyNavigation P url candidate) \<and>
      \<not> (truthy (href candidate) \<and> (\<exists>h \<in> visited st. href candidate = Some h)) \<and>
      (isRiskyNavigation P url candidate \<longrightarrow> decides env i = Some ActYes))"

section \<open>Properties of the agent core\<close>

subsection \<open>Dispatch over the listener array\<close>

lemma run_call_grows:
  assumes "heap_ok s" "a < next_array s"
  shows "heap_ok (run_call s c) \<and> grows a s (run_call s c)"
  using assms by (cases c) (auto simp: heap_ok_def grows_def onEvent_def offEvent_def Let_def)

lemma run_call_fields:
  "invoked (run_call s c) = invoked s \<and> emitted (run_call s c) = emitted s \<and>
   same_decisions s (run_call s c) \<and>
   current_listeners (run_call s c) = list_call (current_listeners s) c"
  by (cases c) (auto simp: onEvent_def offEvent_def Let_def same_decisions_def current_listeners_def)

lemma grows_trans: "grows a s s' \<Longrightarrow> grows a s' s'' \<Longrightarrow> grows a s s''"
  by (auto simp: grows_def)

lemma grows_refl: "a < next_array s \<Longrightarrow> grows a s s"
  by (simp add: grows_def)

lemma run_calls_grows:
  "heap_ok s \<Longrightarrow> a < next_array s \<Longrightarrow>
   heap_ok (foldl run_call s cs) \<and> grows a s (foldl run_call s cs)"
proof (induction cs arbitrary: s)
  case Nil
  then show ?case by (simp add: grows_refl)
next
  case (Cons c cs)
  from run_call_grows [OF Cons.prems] have h: "heap_ok (run_call s c)" and g: "grows a s (run_call s c)"
    by simp_all
  from g have "a < next_array (run_call s c)" by (simp add: grows_def)
  from Cons.IH [OF h this] g show ?case by (auto intro: grows_trans)
qed

lemma run_calls_fields:
  "invoked (foldl run_call s cs) = invoked s \<and> emitted (foldl run_call s cs) = emitted s \<and>
   same_decisions s (foldl run_call s cs) \<and>
   current_listeners (foldl run_call s cs) = foldl list_call (current_listeners s) cs"
proof (induction cs arbitrary: s)
  case Nil
  then show ?case by (simp add: same_decisions_def)
next
  case (Cons c cs)
  show ?case using Cons.IH [of "run_call s c"] run_call_fields [of s c]
    by (simp add: same_decisions_def)
qed

lemma through_methods_script: "through_methods (script H)"
  unfolding through_methods_def script_def
proof (intro allI impI conjI)
  fix l ev s
  assume h: "heap_ok s"
  then have "listeners s < next_array s" by (simp add: heap_ok_def)
  from run_calls_grows [OF h this] show "heap_ok (foldl run_call s (H l ev))" by simp
next
  fix l ev s a
  assume "heap_ok s" "a < next_array s"
  from run_calls_grows [OF this] show "grows a s (foldl run_call s (H l ev))" by simp
qed

lemma script_fields:
  "invoked (script H l ev s) = invoked s \<and> emitted (script H l ev s) = emitted s \<and>
   same_decisions s (script H l ev s) \<and>
   current_listeners (script H l ev s) = foldl list_call (current_listeners s) (H l ev)"
  unfolding script_def by (rule run_calls_fields)

lemma invoke_grows:
  assumes "through_methods L" "heap_ok s"
  shows "heap_ok (invoke L l ev s) \<and> (\<forall>a. a < next_array s \<longrightarrow> grows a s (invoke L l ev s))"
proof -
  let ?s = "s\<lparr>invoked := invoked s @ [(l, ev)]\<rparr>"
  have "heap_ok ?s" using assms(2) by (simp add: heap_ok_def)
  with assms(1) have "heap_ok (L l ev ?s) \<and> (\<forall>a. a < next_array ?s \<longrightarrow> grows a ?s (L l ev ?s))"
    unfolding through_methods_def by blast
  then show ?thesis by (simp add: invoke_def grows_def)
qed

lemma invoke_fields:
  "invoked (invoke (script H) l ev s) = invoked s @ [(l, ev)] \<and>
   emitted (invoke (script H) l ev s) = emitted s \<and>
   same_decisions s (invoke (script H) l ev s) \<and>
   current_listeners (invoke (script H) l ev s) = foldl list_call (current_listeners s) (H l ev)"
  using script_fields [of H l ev "s\<lparr>invoked := invoked s @ [(l, ev)]\<rparr>"]
  by (simp add: invoke_def same_decisions_def current_listeners_def)

text \<open>The loop over the array object is a fold over the list the object held when the
  loop began.\<close>

lemma forEach_fold:
  "through_methods L \<Longrightarrow> heap_ok s \<Longrightarrow> a < next_array s \<Longrightarrow> len \<le> length (arrays s a) \<Longrightarrow>
   forEach L ev a k len s =
     foldl (\<lambda>s l. invoke L l ev s) s (drop k (take len (arrays s a))) \<and>
   heap_ok (forEach L ev a k len s) \<and>
   (\<forall>b. b < next_array s \<longrightarrow> grows b s (forEach L ev a k len s))"
proof (induction L ev a k len s rule: forEach.induct)
  case (1 L ev a k len s)
  show ?case
  proof (cases "k < len")
    case False
    then show ?thesis using "1.prems"
      by (simp add: forEach.simps [of L ev a k len s] grows_refl)
  next
    case True
    let ?l = "arrays s a ! k"
    let ?s1 = "invoke L ?l ev s"
    from True "1.prems" have kl: "k < length (arrays s a)" by simp
    from invoke_grows [OF "1.prems"(1,2), of ?l ev]
    have h1: "heap_ok ?s1" and g1: "\<forall>b. b < next_array s \<longrightarrow> grows b s ?s1"
      by simp_all
    from g1 "1.prems"(3) obtain ys where a1: "a < next_array ?s1"
      and ys: "arrays ?s1 a = arrays s a @ ys"
      by (auto simp: grows_def)
    from ys "1.prems" have len1: "len \<le> length (arrays ?s1 a)" by simp
    from ys "1.prems" have tk: "take len (arrays ?s1 a) = take len (arrays s a)" by simp
    have step: "forEach L ev a k len s = forEach L ev a (Suc k) len ?s1"
      using True kl by (simp add: forEach.simps [of L ev a k len s])
    have s1: "(if k < length (arrays s a) then invoke L ?l ev s else s) = ?s1"
      using kl by simp
    note ih = "1.IH" [OF True, unfolded s1, OF "1.prems"(1) h1 a1 len1]
    from ih have e: "forEach L ev a (Suc k) len ?s1 =
        foldl (\<lambda>s l. invoke L l ev s) ?s1 (drop (Suc k) (take len (arrays ?s1 a)))"
      by blast
    from ih have h: "heap_ok (forEach L ev a (Suc k) len ?s1)" by blast
    from ih have g: "\<forall>b. b < next_array ?s1 \<longrightarrow> grows b ?s1 (forEach L ev a (Suc k) len ?s1)"
      by blast
    have dr: "drop k (take len (arrays s a)) = ?l # drop (Suc k) (take len (arrays s a))"
      using True kl by (simp add: Cons_nth_drop_Suc [symmetric])
    have "forEach L ev a k len s =
        foldl (\<lambda>s l. invoke L l ev s) s (drop k (take len (arrays s a)))"
      unfolding step e tk dr by simp
    moreover have "heap_ok (forEach L ev a k len s)" unfolding step by (rule h)
    moreover have "\<forall>b. b < next_array s \<longrightarrow> grows b s (forEach L ev a k len s)"
      unfolding step
    proof (intro allI impI)
      fix b assume b: "b < next_array s"
      with g1 have gb: "grows b s ?s1" by simp
      then have "b < next_array ?s1" by (simp add: grows_def)
      with g have "grows b ?s1 (forEach L ev a (Suc k) len ?s1)" by simp
      with gb show "grows b s (forEach L ev a (Suc k) len ?s1)" by (rule grows_trans)
    qed
    ultimately show ?thesis by blast
  qed
qed

lemma emit_fold:
  assumes "through_methods L" "heap_ok s"
  shows "emit L ev s =
           foldl (\<lambda>s l. invoke L l ev s) (s\<lparr>emitted := emitted s @ [ev]\<rparr>) (current_listeners s) \<and>
         heap_ok (emit L ev s) \<and>
         (\<forall>b. b < next_array s \<longrightarrow> grows b s (emit L ev s))"
proof -
  let ?s = "s\<lparr>emitted := emitted s @ [ev]\<rparr>"
  have "heap_ok ?s" "listeners s < next_array ?s"
    "length (arrays s (listeners s)) \<le> length (arrays ?s (listeners s))"
    using assms(2) by (simp_all add: heap_ok_def)
  note fe = forEach_fold [OF assms(1) this, of ev 0]
  have tk: "drop 0 (take (length (arrays s (listeners s))) (arrays ?s (listeners s))) =
        arrays s (listeners s)"
    by simp
  from fe [THEN conjunct1]
  have f: "forEach L ev (listeners s) 0 (length (arrays s (listeners s))) ?s =
        foldl (\<lambda>s l. invoke L l ev s) ?s (arrays s (listeners s))"
    by (simp only: tk)
  from fe [THEN conjunct2, THEN conjunct1]
  have h: "heap_ok (forEach L ev (listeners s) 0 (length (arrays s (listeners s))) ?s)" .
  from fe [THEN conjunct2, THEN conjunct2]
  have g: "\<forall>b. b < next_array s \<longrightarrow>
              grows b ?s (forEach L ev (listeners s) 0 (length (arrays s (listeners s))) ?s)"
    by simp
  have e: "emit L ev s = forEach L ev (listeners s) 0 (length (arrays s (listeners s))) ?s"
    by (simp add: emit_def Let_def)
  from g have "\<forall>b. b < next_array s \<longrightarrow> grows b s (emit L ev s)"
    unfolding e by (simp add: grows_def)
  moreover from h have "heap_ok (emit L ev s)" unfolding e .
  moreover from f have "emit L ev s =
      foldl (\<lambda>s l. invoke L l ev s) ?s (current_listeners s)"
    unfolding e current_listeners_def .
  ultimately show ?thesis by blast
qed

text \<open>So a listener that emits is again one that acts through the agent's methods.\<close>

lemma through_methods_emit:
  "through_methods L \<Longrightarrow> through_methods (\<lambda>l ev. emit L (f l ev))"
  unfolding through_methods_def [of "\<lambda>l ev. emit L (f l ev)"]
  using emit_fold by blast

lemma invokes_script:
  "invoked (foldl (\<lambda>s l. invoke (script H) l ev s) s ls) = invoked s @ map (\<lambda>l. (l, ev)) ls \<and>
   current_listeners (foldl (\<lambda>s l. invoke (script H) l ev s) s ls) =
     foldl list_call (current_listeners s) (concat (map (\<lambda>l. H l ev) ls)) \<and>
   emitted (foldl (\<lambda>s l. invoke (script H) l ev s) s ls) = emitted s \<and>
   same_decisions s (foldl (\<lambda>s l. invoke (script H) l ev s) s ls)"
proof (induction ls arbitrary: s)
  case Nil
  show ?case by (simp add: same_decisions_def)
next
  case (Cons l ls)
  show ?case
    using Cons.IH [of "invoke (script H) l ev s"] invoke_fields [of H l ev s]
    by (simp add: same_decisions_def)
qed

lemma emit_snapshot:
  assumes "heap_ok s"
  shows "heap_ok (emit (script H) ev s) \<and>
   invoked (emit (script H) ev s) = invoked s @ map (\<lambda>l. (l, ev)) (current_listeners s) \<and>
   current_listeners (emit (script H) ev s) =
     foldl list_call (current_listeners s) (concat (map (\<lambda>l. H l ev) (current_listeners s))) \<and>
   emitted (emit (script H) ev s) = emitted s @ [ev] \<and>
   same_decisions s (emit (script H) ev s)"
proof -
  let ?f = "foldl (\<lambda>s l. invoke (script H) l ev s) (s\<lparr>emitted := emitted s @ [ev]\<rparr>)
              (current_listeners s)"
  note ef = emit_fold [OF through_methods_script assms, of H ev]
  from ef have e: "emit (script H) ev s = ?f" by blast
  from ef have "heap_ok (emit (script H) ev s)" by blast
  then have h: "heap_ok ?f" unfolding e .
  from invokes_script [of H ev "s\<lparr>emitted := emitted s @ [ev]\<rparr>" "current_listeners s"] h
  show ?thesis unfolding e by (simp add: current_listeners_def same_decisions_def)
qed

subsection \<open>The approval slot and the risk gate\<close>

lemma forEach_fields:
  "emitted (forEach (script H) ev a k len s) = emitted s \<and>
   same_decisions s (forEach (script H) ev a k len s)"
proof (induction "script H" ev a k len s rule: forEach.induct)
  case (1 ev a k len s)
  show ?case
  proof (cases "k < len")
    case False
    then show ?thesis by (simp add: forEach.simps [of "script H" ev a k len s] same_decisions_def)
  next
    case True
    show ?thesis
      using "1.hyps" [OF True] invoke_fields [of H "arrays s a ! k" ev s] True
      by (simp add: forEach.simps [of "script H" ev a k len s] same_decisions_def)
  qed
qed

lemma emit_fields:
  "emitted (emit (script H) ev s) = emitted s @ [ev] \<and> same_decisions s (emit (script H) ev s)"
  using forEach_fields [of H ev "listeners s" 0 "length (arrays s (listeners s))"
      "s\<lparr>emitted := emitted s @ [ev]\<rparr>"]
  by (simp add: emit_def Let_def same_decisions_def)

lemma requestApproval_parks:
  assumes "requestApproval H (a, m, e, r) s = (s', p)"
  shows "p = next_promise s \<and> resolver s' = Some p \<and> next_promise s' = Suc p \<and>
     settled s' = settled s \<and> mode s' = mode s \<and>
     emitted s' = emitted s @ [ApprovalRequired a m e r]"
  using assms emit_fields [of H "ApprovalRequired a m e r" s]
  by (auto simp: requestApproval_def Let_def same_decisions_def)

lemma requestApproval_promises_ok:
  assumes "promises_ok s" "requestApproval H pl s = (s', p)"
  shows "promises_ok s'"
proof -
  obtain a m e r where pl: "pl = (a, m, e, r)" by (cases pl) auto
  from requestApproval_parks [OF assms(2) [unfolded pl]] assms(1)
  show ?thesis by (auto simp: promises_ok_def)
qed

lemma resolveApproval_promises_ok:
  "promises_ok s \<Longrightarrow> promises_ok (resolveApproval d s)"
  by (auto simp: promises_ok_def resolveApproval_def resolve_promise_def split: option.splits)

lemma handleNetworkCall_cases:
  assumes "handleNetworkCall H m url status now s = (s', g)"
  shows "if assessRisk m url = High \<or> (assessRisk m url = Medium \<and> mode s = EXECUTE)
         then g = Awaits (next_promise s) \<and> resolver s' = Some (next_promise s) \<and>
              next_promise s' = Suc (next_promise s) \<and> settled s' = settled s \<and>
              mode s' = mode s \<and>
              emitted s' = emitted s @ [Network m url status now,
                 ApprovalRequired (action_text m url) m url (assessRisk m url)]
         else g = ReturnsNull \<and> resolver s' = resolver s \<and>
              next_promise s' = next_promise s \<and> settled s' = settled s \<and>
              mode s' = mode s \<and>
              emitted s' = emitted s @ [Network m url status now]"
proof -
  let ?s1 = "emit (script H) (Network m url status now) s"
  let ?pl = "(action_text m url, m, url, assessRisk m url)"
  have e1: "emitted ?s1 = emitted s @ [Network m url status now]" and sd: "same_decisions s ?s1"
    using emit_fields [of H "Network m url status now" s] by simp_all
  show ?thesis
  proof (cases "assessRisk m url = High \<or> (assessRisk m url = Medium \<and> mode s = EXECUTE)")
    case True
    obtain s2 p where rq: "requestApproval H ?pl ?s1 = (s2, p)" by (cases "requestApproval H ?pl ?s1") auto
    have "s' = s2 \<and> g = Awaits p"
      using True assms rq sd by (auto simp: handleNetworkCall_def Let_def same_decisions_def)
    with requestApproval_parks [OF rq] e1 sd True show ?thesis
      by (simp add: same_decisions_def)
  next
    case False
    have "s' = ?s1 \<and> g = ReturnsNull"
      using False assms sd by (auto simp: handleNetworkCall_def Let_def same_decisions_def)
    with e1 sd False show ?thesis by (simp add: same_decisions_def)
  qed
qed

lemma handleNetworkCall_promises_ok:
  assumes "promises_ok s" "handleNetworkCall H m url status now s = (s', g)"
  shows "promises_ok s'"
  using handleNetworkCall_cases [OF assms(2)] assms(1)
  by (auto simp: promises_ok_def split: if_splits)

lemma promises_ok_new: "promises_ok new_Agent"
  by (simp add: promises_ok_def new_Agent_def)

lemma heap_ok_new: "heap_ok new_Agent"
  by (simp add: heap_ok_def new_Agent_def)

subsection \<open>Runs of agent calls\<close>

lemma apply_op_decisions:
  "apply_op H s op = s' \<Longrightarrow>
   next_promise s \<le> next_promise s' \<and>
   (\<forall>p. p < next_promise s \<and> resolver s \<noteq> Some p \<longrightarrow>
        settled s' p = settled s p \<and> resolver s' \<noteq> Some p)"
proof (cases op)
  case (OpOnEvent l)
  assume "apply_op H s op = s'"
  with OpOnEvent show ?thesis by (auto simp: onEvent_def)
next
  case (OpOffEvent l)
  assume "apply_op H s op = s'"
  with OpOffEvent show ?thesis by (auto simp: offEvent_def Let_def)
next
  case (OpEmit ev)
  assume "apply_op H s op = s'"
  with OpEmit emit_fields [of H ev s] show ?thesis by (auto simp: same_decisions_def)
next
  case (OpRequestApproval pl)
  assume a: "apply_op H s op = s'"
  obtain a m e r where pl: "pl = (a, m, e, r)" by (cases pl) auto
  obtain p where "requestApproval H (a, m, e, r) s = (s', p)"
    using a OpRequestApproval pl by (cases "requestApproval H (a, m, e, r) s") auto
  from requestApproval_parks [OF this] show ?thesis by auto
next
  case (OpResolveApproval d)
  assume "apply_op H s op = s'"
  with OpResolveApproval show ?thesis
    by (auto simp: resolveApproval_def resolve_promise_def split: option.splits)
next
  case (OpSetMode m)
  assume "apply_op H s op = s'"
  with OpSetMode emit_fields [of H "ModeChange m" "s\<lparr>mode := m\<rparr>"] show ?thesis
    by (auto simp: setMode_def same_decisions_def)
next
  case (OpHandleNetworkCall m url status now)
  assume a: "apply_op H s op = s'"
  obtain g where "handleNetworkCall H m url status now s = (s', g)"
    using a OpHandleNetworkCall by (cases "handleNetworkCall H m url status now s") auto
  from handleNetworkCall_cases [OF this] show ?thesis by (auto split: if_splits)
qed

lemma apply_op_orphaned: "orphaned p s \<Longrightarrow> orphaned p (apply_op H s op)"
  using apply_op_decisions [of H s op "apply_op H s op"]
  by (auto simp: orphaned_def)

lemma run_ops_orphaned: "orphaned p s \<Longrightarrow> orphaned p (run_ops H ops s)"
  unfolding run_ops_def
  by (induction ops arbitrary: s) (auto intro: apply_op_orphaned)

lemma run_ops_next_promise: "next_promise s \<le> next_promise (run_ops H ops s)"
  unfolding run_ops_def
proof (induction ops arbitrary: s)
  case Nil
  show ?case by simp
next
  case (Cons op ops)
  from apply_op_decisions [of H s op "apply_op H s op"] Cons.IH [of "apply_op H s op"]
  show ?case by auto
qed

lemma apply_op_heap_ok: "heap_ok s \<Longrightarrow> heap_ok (apply_op H s op)"
proof (cases op)
  case (OpRequestApproval pl)
  assume h: "heap_ok s"
  obtain a m e r where pl: "pl = (a, m, e, r)" by (cases pl) auto
  from emit_snapshot [OF h, of H "ApprovalRequired a m e r"] OpRequestApproval pl
  show ?thesis by (simp add: requestApproval_def Let_def heap_ok_def)
next
  case (OpHandleNetworkCall m url status now)
  assume h: "heap_ok s"
  let ?s1 = "emit (script H) (Network m url status now) s"
  from emit_snapshot [OF h, of H "Network m url status now"] have h1: "heap_ok ?s1" by simp
  from emit_snapshot [OF h1, of H "ApprovalRequired (action_text m url) m url (assessRisk m url)"]
  have "heap_ok (fst (requestApproval H (action_text m url, m, url, assessRisk m url) ?s1))"
    by (simp add: requestApproval_def Let_def heap_ok_def)
  with h1 OpHandleNetworkCall show ?thesis
    by (auto simp: handleNetworkCall_def Let_def split: prod.splits)
next
  case (OpSetMode m)
  assume h: "heap_ok s"
  then have "heap_ok (s\<lparr>mode := m\<rparr>)" by (simp add: heap_ok_def)
  from emit_snapshot [OF this, of H "ModeChange m"] OpSetMode show ?thesis
    by (simp add: setMode_def)
next
  case (OpEmit ev)
  assume h: "heap_ok s"
  from emit_snapshot [OF h, of H ev] OpEmit show ?thesis by simp
next
  case (OpOnEvent l)
  assume "heap_ok s"
  with OpOnEvent show ?thesis by (simp add: heap_ok_def onEvent_def)
next
  case (OpOffEvent l)
  assume "heap_ok s"
  with OpOffEvent show ?thesis by (simp add: heap_ok_def offEvent_def Let_def)
next
  case (OpResolveApproval d)
  assume "heap_ok s"
  with OpResolveApproval show ?thesis
    by (auto simp: heap_ok_def resolveApproval_def resolve_promise_def split: option.splits)
qed

lemma run_ops_heap_ok: "heap_ok s \<Longrightarrow> heap_ok (run_ops H ops s)"
  unfolding run_ops_def
  by (induction ops arbitrary: s) (auto intro: apply_op_heap_ok)

text \<open>Both allocation disciplines hold in every state a run of agent calls reaches
  from a new agent.\<close>

lemma emit_promises_ok: "promises_ok s \<Longrightarrow> promises_ok (emit (script H) ev s)"
  using emit_fields [of H ev s] by (simp add: promises_ok_def same_decisions_def)

lemma apply_op_promises_ok: "promises_ok s \<Longrightarrow> promises_ok (apply_op H s op)"
proof (cases op)
  case (OpOnEvent l)
  assume "promises_ok s"
  with OpOnEvent show ?thesis by (simp add: promises_ok_def onEvent_def)
next
  case (OpOffEvent l)
  assume "promises_ok s"
  with OpOffEvent show ?thesis by (simp add: promises_ok_def offEvent_def Let_def)
next
  case (OpEmit ev)
  assume "promises_ok s"
  with OpEmit show ?thesis by (simp add: emit_promises_ok)
next
  case (OpRequestApproval pl)
  assume a: "promises_ok s"
  have "requestApproval H pl s = (fst (requestApproval H pl s), snd (requestApproval H pl s))"
    by simp
  from requestApproval_promises_ok [OF a this] OpRequestApproval show ?thesis by simp
next
  case (OpResolveApproval d)
  assume "promises_ok s"
  with OpResolveApproval show ?thesis by (simp add: resolveApproval_promises_ok)
next
  case (OpSetMode m)
  assume "promises_ok s"
  then have "promises_ok (s\<lparr>mode := m\<rparr>)" by (simp add: promises_ok_def)
  with OpSetMode show ?thesis by (simp add: setMode_def emit_promises_ok)
next
  case (OpHandleNetworkCall m url status now)
  assume a: "promises_ok s"
  have "handleNetworkCall H m url status now s =
    (fst (handleNetworkCall H m url status now s), snd (handleNetworkCall H m url status now s))"
    by simp
  from handleNetworkCall_promises_ok [OF a this] OpHandleNetworkCall show ?thesis by simp
qed

lemma run_ops_promises_ok: "promises_ok s \<Longrightarrow> promises_ok (run_ops H ops s)"
  unfolding run_ops_def
  by (induction ops arbitrary: s) (auto intro: apply_op_promises_ok)

lemma reachable_agent_ok:
  "heap_ok (run_ops H ops new_Agent) \<and> promises_ok (run_ops H ops new_Agent)"
  by (simp add: run_ops_heap_ok run_ops_promises_ok heap_ok_new promises_ok_new)

lemma through_methods_reemitter: "through_methods reemitter"
  unfolding through_methods_def
proof (intro allI impI)
  fix l ev s
  assume h: "heap_ok s"
  let ?s1 = "offEvent 2 s"
  have h1: "heap_ok ?s1" using h by (simp add: heap_ok_def offEvent_def Let_def)
  have g1: "\<forall>a. a < next_array s \<longrightarrow> grows a s ?s1"
    by (simp add: grows_def offEvent_def Let_def)
  note ef = emit_fold [OF through_methods_script h1, of quiet "Info ''y''"]
  show "heap_ok (reemitter l ev s) \<and> (\<forall>a. a < next_array s \<longrightarrow> grows a s (reemitter l ev s))"
  proof (cases "l = 1 \<and> ev = Info ''x''")
    case False
    with h show ?thesis by (auto simp: reemitter_def grows_refl)
  next
    case True
    then have r: "reemitter l ev s = emit (script quiet) (Info ''y'') ?s1"
      by (simp add: reemitter_def)
    have "\<forall>a. a < next_array s \<longrightarrow> grows a s (emit (script quiet) (Info ''y'') ?s1)"
    proof (intro allI impI)
      fix a assume "a < next_array s"
      with g1 have g: "grows a s ?s1" by simp
      then have "a < next_array ?s1" by (simp add: grows_def)
      with ef have "grows a ?s1 (emit (script quiet) (Info ''y'') ?s1)" by blast
      with g show "grows a s (emit (script quiet) (Info ''y'') ?s1)" by (rule grows_trans)
    qed
    with ef show ?thesis unfolding r by blast
  qed
qed

section \<open>Properties of the response handler\<close>

lemma shouldCapture_cases:
  "shouldCapture P r i =
     (if \<not> resource_ok i then Inr False
      else if includeThirdParty r \<or> \<not> truthy (captureBaseDomain r) then Inr True
      else if P (ri_url i) = None then Inl TypeError
      else Inr (same_site_ok P r i))"
  by (auto simp: shouldCapture_def resource_ok_def same_site_ok_def truthy_def Let_def
      split: option.splits)

lemma deliver_capturedCalls:
  "capturedCalls (recorder (deliver P s call)) = capturedCalls (recorder s) @ [call]"
  by (simp add: deliver_def Let_def split: option.splits capture_listener.splits)

lemma deliver_reading: "reading (deliver P s call) = reading s"
  by (simp add: deliver_def Let_def split: option.splits capture_listener.splits)

lemma after_gate_appended:
  assumes "after_gate P now m response info s = (s', res)"
  shows "capturedCalls (recorder s') =
           capturedCalls (recorder s) @
           (if reads_body response then [] else appended P now m response info (recorder s)) \<and>
         reading s' =
           reading s @
           (if reads_body response then queued P m response info (recorder s) else [])"
proof (cases info)
  case None
  with assms show ?thesis by (simp add: after_gate_def appended_def queued_def)
next
  case (Some i)
  show ?thesis
  proof (cases "captureActive (recorder s)")
    case False
    with assms Some show ?thesis
      by (simp add: after_gate_def appended_def queued_def captures_def)
  next
    case True
    show ?thesis
    proof (cases "shouldCapture P (recorder s) i")
      case (Inl e)
      with assms Some True have "s' = s" by (simp add: after_gate_def)
      moreover from Inl have "\<not> captures P (recorder s) info"
        by (auto simp: shouldCapture_cases captures_def Some same_site_ok_def split: if_splits)
      ultimately show ?thesis by (simp add: appended_def queued_def Some)
    next
      case (Inr ok)
      then have c: "captures P (recorder s) info = ok"
        using True
        by (auto simp: shouldCapture_cases captures_def Some split: if_splits)
      show ?thesis
        using assms Some True Inr c
        by (auto simp: after_gate_def appended_def queued_def deliver_capturedCalls
            deliver_reading)
    qed
  qed
qed

lemma after_gate_rejects:
  assumes "after_gate P now m response info s = (s', res)"
  shows "(\<exists>e. res = Rejected e) \<longleftrightarrow>
         (\<exists>i. info = Some i \<and> captureActive (recorder s) \<and> resource_ok i \<and>
               \<not> includeThirdParty (recorder s) \<and> truthy (captureBaseDomain (recorder s)) \<and>
               P (ri_url i) = None \<and> res = Rejected TypeError \<and> s' = s)"
  using assms
  by (cases info) (auto simp: after_gate_def shouldCapture_cases split: if_splits)

text \<open>When the body has been read the call is pushed, whatever the state of the capture
  is by then.\<close>

lemma body_read_appended:
  "capturedCalls (recorder (body_read P k t s)) =
     capturedCalls (recorder s) @
     (if k < length (reading s)
      then (case reading s ! k of (response, i, m) \<Rightarrow> [build_call m response i t])
      else []) \<and>
   reading (body_read P k t s) =
     (if k < length (reading s) then take k (reading s) @ drop (Suc k) (reading s)
      else reading s)"
  by (auto simp: body_read_def finish_read_def deliver_capturedCalls deliver_reading
      split: prod.splits)

lemma safeResponseBody_degrades:
  "(rs_text r = None \<longrightarrow> safeResponseBody r = None) \<and>
   (\<not> includes_str (case map_of (rs_headers r) ''content-type'' of None \<Rightarrow> [] | Some v \<Rightarrow> v)
        ''application/json'' \<and>
    \<not> includes_str (case map_of (rs_headers r) ''content-type'' of None \<Rightarrow> [] | Some v \<Rightarrow> v)
        ''text/plain'' \<longrightarrow> safeResponseBody r = None)"
  by (auto simp: safeResponseBody_def safeResponseBody_try_def Let_def split: option.splits)

text \<open>When the user answers, the handlers parked on the promise in the approval slot
  resume, and no others.\<close>

lemma resolve_approval_resumes:
  assumes "resolver (agent s) = Some p"
      and "\<forall>h \<in> set (parked s). settled (agent s) (fst h) = None"
  shows "resolve_approval P d now s =
         foldl (resume P now)
           (s\<lparr>agent := resolveApproval d (agent s),
              parked := filter (\<lambda>h. fst h \<noteq> p) (parked s)\<rparr>)
           (filter (\<lambda>h. fst h = p) (parked s))"
proof -
  let ?a = "resolveApproval d (agent s)"
  have st: "settled ?a q = (if q = p \<and> settled (agent s) p = None then Some d else settled (agent s) q)" for q
    using assms(1) by (simp add: resolveApproval_def resolve_promise_def)
  have r: "filter (\<lambda>h. settled ?a (fst h) \<noteq> None) (parked s) = filter (\<lambda>h. fst h = p) (parked s)"
    using assms(2) by (intro filter_cong refl) (auto simp: st)
  have w: "filter (\<lambda>h. settled ?a (fst h) = None) (parked s) = filter (\<lambda>h. fst h \<noteq> p) (parked s)"
    using assms(2) by (intro filter_cong refl) (auto simp: st)
  show ?thesis unfolding resolve_approval_def Let_def r w by (rule refl)
qed

lemma resolve_approval_idle:
  assumes "resolver (agent s) = None"
      and "\<forall>h \<in> set (parked s). settled (agent s) (fst h) = None"
  shows "resolve_approval P d now s = s"
proof -
  have a: "resolveApproval d (agent s) = agent s" using assms(1) by (simp add: resolveApproval_def)
  have r: "filter (\<lambda>h. settled (agent s) (fst h) \<noteq> None) (parked s) = []"
    using assms(2) by (simp add: filter_empty_conv)
  have w: "filter (\<lambda>h. settled (agent s) (fst h) = None) (parked s) = parked s"
    using assms(2) by (simp add: filter_id_conv)
  show ?thesis unfolding resolve_approval_def Let_def a r w by simp
qed

text \<open>The parked handlers of every reachable state wait on pending promises, no two on
  the same.\<close>

lemma deliver_agent: "agent (deliver P s c) = agent s \<and> parked (deliver P s c) = parked s"
  by (simp add: deliver_def Let_def split: option.splits capture_listener.splits)

lemma after_gate_agent:
  "agent (fst (after_gate P now m r info s)) = agent s \<and>
   parked (fst (after_gate P now m r info s)) = parked s"
  by (auto simp: after_gate_def deliver_agent split: option.splits sum.splits)

lemma note_result_agent:
  "agent (note_result sr) = agent (fst sr) \<and> parked (note_result sr) = parked (fst sr)"
  by (cases sr; cases "snd sr") (auto simp: note_result_def)

lemma resume_agent: "agent (resume P now s h) = agent s \<and> parked (resume P now s h) = parked s"
  by (cases h) (simp add: resume_def note_result_agent after_gate_agent)

lemma resumes_agent:
  "agent (foldl (resume P now) s hs) = agent s \<and> parked (foldl (resume P now) s hs) = parked s"
  by (induction hs arbitrary: s) (simp_all add: resume_agent)

lemma on_response_parked_ok:
  assumes "parked_ok s"
  shows "parked_ok (fst (on_response P H now r s))"
proof -
  let ?info = "requests (recorder s) (rs_request r)"
  let ?m = "response_method ?info r"
  obtain a g where h: "handleNetworkCall H ?m (rs_url r) (rs_status r) now (agent s) = (a, g)"
    by (cases "handleNetworkCall H ?m (rs_url r) (rs_status r) now (agent s)") auto
  from assms have ok: "promises_ok (agent s)" by (simp add: parked_ok_def)
  note ok' = handleNetworkCall_promises_ok [OF ok h]
  note c = handleNetworkCall_cases [OF h]
  show ?thesis
  proof (cases g)
    case ReturnsNull
    with h have "fst (on_response P H now r s) = fst (after_gate P now ?m r ?info (s\<lparr>agent := a\<rparr>))"
      by (simp add: on_response_def Let_def)
    moreover have "parked_ok (s\<lparr>agent := a\<rparr>)"
      using assms ok' c ReturnsNull by (auto simp: parked_ok_def split: if_splits)
    ultimately show ?thesis
      using after_gate_agent [of P now ?m r ?info "s\<lparr>agent := a\<rparr>"]
      by (simp add: parked_ok_def)
  next
    case (Awaits p)
    with h have e: "fst (on_response P H now r s) = s\<lparr>agent := a, parked := parked s @ [(p, r, ?info, ?m)]\<rparr>"
      by (simp add: on_response_def Let_def)
    from c Awaits have p: "p = next_promise (agent s)" and n: "next_promise a = Suc p"
      and st: "settled a = settled (agent s)"
      by (auto split: if_splits)
    from ok p have pn: "settled (agent s) p = None" by (simp add: promises_ok_def)
    show ?thesis
      using assms ok' p n st pn unfolding e
      by (auto simp: parked_ok_def)
  qed
qed

lemma resolve_approval_parked_ok:
  assumes "parked_ok s"
  shows "parked_ok (resolve_approval P d now s)"
proof -
  let ?a = "resolveApproval d (agent s)"
  let ?w = "filter (\<lambda>h. settled ?a (fst h) = None) (parked s)"
  have np: "next_promise ?a = next_promise (agent s)"
    by (simp add: resolveApproval_def resolve_promise_def split: option.splits)
  have "parked_ok (s\<lparr>agent := ?a, parked := ?w\<rparr>)"
    using assms resolveApproval_promises_ok [of "agent s" d]
    by (auto simp: parked_ok_def np distinct_map_filter)
  then show ?thesis
    using resumes_agent [of P now "s\<lparr>agent := ?a, parked := ?w\<rparr>"]
    by (simp add: resolve_approval_def Let_def parked_ok_def)
qed

lemma step_parked_ok: "parked_ok s \<Longrightarrow> parked_ok (step P H url s ev)"
proof (cases ev)
  case (EvRequest n i)
  assume "parked_ok s"
  with EvRequest show ?thesis by (simp add: on_request_def parked_ok_def)
next
  case (EvResponse r now)
  assume "parked_ok s"
  from on_response_parked_ok [OF this, of P H now r] EvResponse show ?thesis
    by (simp add: parked_ok_def note_result_agent)
next
  case (EvResolveApproval d now)
  assume "parked_ok s"
  with EvResolveApproval show ?thesis by (simp add: resolve_approval_parked_ok)
next
  case (EvBodyRead k now)
  assume "parked_ok s"
  with EvBodyRead show ?thesis
    by (auto simp: body_read_def finish_read_def parked_ok_def deliver_agent split: prod.splits)
next
  case EvStartCaptureSession
  assume "parked_ok s"
  with EvStartCaptureSession show ?thesis
    by (auto simp: startCaptureSession_def Let_def parked_ok_def split: prod.splits option.splits)
next
  case EvFinalizeCapture
  assume "parked_ok s"
  with EvFinalizeCapture show ?thesis by (auto simp: finalizeCapture_def parked_ok_def)
next
  case (EvSetMode m)
  assume a: "parked_ok s"
  have "same_decisions (agent s\<lparr>mode := m\<rparr>) (setMode H m (agent s))"
    using emit_fields [of H "ModeChange m" "agent s\<lparr>mode := m\<rparr>"] by (simp add: setMode_def)
  with a EvSetMode show ?thesis
    by (auto simp: parked_ok_def same_decisions_def promises_ok_def)
qed

lemma run_parked_ok: "parked_ok s \<Longrightarrow> parked_ok (run P H url evs s)"
  unfolding run_def
  by (induction evs arbitrary: s) (auto intro: step_parked_ok)

lemma parked_ok_new: "parked_ok new_System"
  by (simp add: parked_ok_def new_System_def promises_ok_new)

lemma distinct_filter_eq_le_one:
  "distinct xs \<Longrightarrow> length (filter (\<lambda>q. q = p) xs) \<le> 1"
  by (induction xs) (auto simp: filter_empty_conv)

lemma parked_ok_one:
  assumes "parked_ok s"
  shows "length (filter (\<lambda>h. fst h = p) (parked s)) \<le> 1"
proof -
  from assms have "distinct (map fst (parked s))" by (simp add: parked_ok_def)
  from distinct_filter_eq_le_one [OF this, of p]
  have "length (map fst (filter (\<lambda>h. fst h = p) (parked s))) \<le> 1"
    by (simp add: filter_map comp_def)
  then show ?thesis by simp
qed

section \<open>Properties of the session accumulator\<close>

lemma onCapturedCall_inv: "dedup_inv P ss \<Longrightarrow> dedup_inv P (onCapturedCall P c ss)"
  by (auto simp: dedup_inv_def onCapturedCall_def Let_def)

lemma deliver_session:
  "session (deliver P s c) =
     (if onCapture (recorder s) = None then session s else onCapturedCall P c (session s))"
  by (simp add: deliver_def Let_def split: option.splits capture_listener.splits)

lemma deliver_inv: "dedup_inv P (session s) \<Longrightarrow> dedup_inv P (session (deliver P s c))"
  by (simp add: deliver_session onCapturedCall_inv)

lemma after_gate_inv:
  "dedup_inv P (session s) \<Longrightarrow> dedup_inv P (session (fst (after_gate P now m r info s)))"
  by (auto simp: after_gate_def deliver_inv split: option.splits sum.splits)

lemma note_result_session: "session (note_result (s, r)) = session s"
  by (cases r) (simp_all add: note_result_def)

lemma note_result_inv:
  "dedup_inv P (session (fst sr)) \<Longrightarrow> dedup_inv P (session (note_result sr))"
  by (cases sr) (simp add: note_result_session)

lemma resume_inv: "dedup_inv P (session s) \<Longrightarrow> dedup_inv P (session (resume P now s h))"
  by (cases h) (auto simp: resume_def intro: note_result_inv after_gate_inv)

lemma resumes_inv:
  "dedup_inv P (session s) \<Longrightarrow> dedup_inv P (session (foldl (resume P now) s hs))"
  by (induction hs arbitrary: s) (auto intro: resume_inv)

lemma on_response_inv:
  assumes "dedup_inv P (session s)"
  shows "dedup_inv P (session (fst (on_response P H now r s)))"
proof -
  have "dedup_inv P (session (s\<lparr>agent := a\<rparr>))" for a using assms by simp
  from after_gate_inv [OF this] assms show ?thesis
    by (auto simp: on_response_def Let_def split: prod.splits gate.splits)
qed

lemma step_inv: "dedup_inv P (session s) \<Longrightarrow> dedup_inv P (session (step P H url s ev))"
proof (cases ev)
  case (EvRequest n i)
  assume "dedup_inv P (session s)"
  with EvRequest show ?thesis by (simp add: on_request_def)
next
  case (EvResponse r now)
  assume "dedup_inv P (session s)"
  with EvResponse show ?thesis by (auto intro: note_result_inv on_response_inv)
next
  case (EvResolveApproval d now)
  assume a: "dedup_inv P (session s)"
  show ?thesis unfolding EvResolveApproval step.simps resolve_approval_def Let_def
    by (rule resumes_inv) (use a in simp)
next
  case (EvBodyRead k now)
  assume "dedup_inv P (session s)"
  with EvBodyRead show ?thesis
    by (auto simp: body_read_def finish_read_def intro: deliver_inv split: prod.splits)
next
  case EvStartCaptureSession
  assume "dedup_inv P (session s)"
  with EvStartCaptureSession show ?thesis
    by (auto simp: startCaptureSession_def Let_def dedup_inv_def split: prod.splits option.splits)
next
  case EvFinalizeCapture
  assume "dedup_inv P (session s)"
  with EvFinalizeCapture show ?thesis
    by (auto simp: finalizeCapture_def dedup_inv_def)
next
  case (EvSetMode m)
  assume "dedup_inv P (session s)"
  with EvSetMode show ?thesis by simp
qed

lemma run_inv: "dedup_inv P (session s) \<Longrightarrow> dedup_inv P (session (run P H url evs s))"
  unfolding run_def
  by (induction evs arbitrary: s) (auto intro: step_inv)

lemma dedup_inv_new: "dedup_inv P (session new_System)"
  by (simp add: dedup_inv_def new_System_def new_Session_def)

lemma dedup_inv_card:
  "dedup_inv P ss \<Longrightarrow> card (captureUniqueKeys ss) = length (sessionCalls ss)"
  using distinct_card [of "map (getApiKey P) (sessionCalls ss)"]
  by (simp add: dedup_inv_def)

lemma deliver_onCapture: "onCapture (recorder (deliver P s c)) = onCapture (recorder s)"
  by (simp add: deliver_def Let_def split: option.splits capture_listener.splits)

lemma delivers_first_occurrences:
  "onCapture (recorder s) = Some OnCapturedCall \<Longrightarrow>
   capturedCalls (recorder (foldl (deliver P) s cs)) = capturedCalls (recorder s) @ cs \<and>
   sessionCalls (session (foldl (deliver P) s cs)) =
     sessionCalls (session s) @ first_occurrences P (captureUniqueKeys (session s)) cs"
proof (induction cs arbitrary: s)
  case Nil
  show ?case by simp
next
  case (Cons c cs)
  have l: "onCapture (recorder (deliver P s c)) = Some OnCapturedCall"
    using Cons.prems by (simp add: deliver_onCapture)
  have ss: "session (deliver P s c) = onCapturedCall P c (session s)"
    using Cons.prems by (simp add: deliver_session)
  show ?case
    using Cons.IH [OF l]
    by (auto simp: deliver_capturedCalls ss onCapturedCall_def Let_def)
qed

text \<open>The session against the calls pushed, over every run, and what makes two keys
  equal.\<close>

lemma first_occurrences_snoc:
  "first_occurrences P K (cs @ [c]) =
     first_occurrences P K cs @
     (if getApiKey P c \<in> K \<union> set (map (getApiKey P) cs) then [] else [c])"
  by (induction cs arbitrary: K) auto

lemma first_occurrences_keys:
  "set (map (getApiKey P) (first_occurrences P K cs)) = set (map (getApiKey P) cs) - K"
  by (induction cs arbitrary: K) auto

lemma listened_snoc: "listened (ds @ [(c, b)]) = listened ds @ (if b then [c] else [])"
  by (simp add: listened_def)

lemma drop_snoc_suffix:
  assumes "xs = drop (length ys - length xs) ys" "length xs \<le> length ys"
  shows "xs @ [c] = drop (length (ys @ [c]) - length (xs @ [c])) (ys @ [c])"
proof -
  have "length ys - length xs \<le> length ys" by simp
  then have "drop (length ys - length xs) (ys @ [c]) = drop (length ys - length xs) ys @ [c]"
    by simp
  with assms show ?thesis by simp
qed

lemma deliver_log:
  assumes "session_log P s"
  shows "session_log P (deliver P s c)"
proof -
  from assms have sc: "sessionCalls (session s) = first_occurrences P {} (listened (deliveries s))"
    and ks: "captureUniqueKeys (session s) = set (map (getApiKey P) (listened (deliveries s)))"
    and cc: "capturedCalls (recorder s) =
        drop (length (deliveries s) - length (capturedCalls (recorder s))) (map fst (deliveries s))"
    and le: "length (capturedCalls (recorder s)) \<le> length (deliveries s)"
    by (simp_all add: session_log_def)
  have d: "deliveries (deliver P s c) = deliveries s @ [(c, onCapture (recorder s) \<noteq> None)]"
    by (simp add: deliver_def Let_def split: option.splits capture_listener.splits)
  have r: "capturedCalls (recorder (deliver P s c)) = capturedCalls (recorder s) @ [c]"
    by (rule deliver_capturedCalls)
  from le have le': "length (capturedCalls (recorder s)) \<le> length (map fst (deliveries s))"
    by simp
  from cc have cc': "capturedCalls (recorder s) =
      drop (length (map fst (deliveries s)) - length (capturedCalls (recorder s)))
        (map fst (deliveries s))"
    by simp
  note sf = drop_snoc_suffix [OF cc' le', of c]
  have rec: "capturedCalls (recorder (deliver P s c)) =
        drop (length (deliveries (deliver P s c)) - length (capturedCalls (recorder (deliver P s c))))
          (map fst (deliveries (deliver P s c)))"
    unfolding r d using sf by simp
  have len: "length (capturedCalls (recorder (deliver P s c))) \<le> length (deliveries (deliver P s c))"
    unfolding r d using le by simp
  have ses: "sessionCalls (session (deliver P s c)) =
       first_occurrences P {} (listened (deliveries (deliver P s c))) \<and>
     captureUniqueKeys (session (deliver P s c)) =
       set (map (getApiKey P) (listened (deliveries (deliver P s c))))"
  proof (cases "onCapture (recorder s)")
    case None
    then show ?thesis using sc ks
      by (simp add: d listened_snoc deliver_session)
  next
    case (Some l)
    then show ?thesis using sc ks
      by (auto simp: d listened_snoc deliver_session onCapturedCall_def Let_def
          first_occurrences_snoc)
  qed
  from ses rec len show ?thesis by (simp add: session_log_def)
qed

lemma deliver_deliveries_fields:
  "session_log P s \<Longrightarrow> session s' = session s \<Longrightarrow> deliveries s' = deliveries s \<Longrightarrow>
   capturedCalls (recorder s') = capturedCalls (recorder s) \<Longrightarrow> session_log P s'"
  by (simp add: session_log_def)

lemma after_gate_log:
  "session_log P s \<Longrightarrow> session_log P (fst (after_gate P now m r info s))"
  by (auto simp: after_gate_def deliver_log split: option.splits sum.splits
      intro: deliver_deliveries_fields)

lemma note_result_log:
  "session_log P (fst sr) \<Longrightarrow> session_log P (note_result sr)"
  by (cases sr; cases "snd sr") (auto simp: note_result_def intro: deliver_deliveries_fields)

lemma resume_log: "session_log P s \<Longrightarrow> session_log P (resume P now s h)"
  by (cases h) (auto simp: resume_def intro: note_result_log after_gate_log)

lemma resumes_log:
  "session_log P s \<Longrightarrow> session_log P (foldl (resume P now) s hs)"
  by (induction hs arbitrary: s) (auto intro: resume_log)

lemma on_response_log:
  assumes "session_log P s"
  shows "session_log P (fst (on_response P H now r s))"
proof -
  have a: "session_log P (s\<lparr>agent := a\<rparr>)" for a
    using assms by (simp add: session_log_def)
  have b: "session_log P (s\<lparr>agent := a, parked := q\<rparr>)" for a q
    using assms by (simp add: session_log_def)
  from after_gate_log [OF a] b show ?thesis
    by (auto simp: on_response_def Let_def split: prod.splits gate.splits)
qed

lemma step_log: "session_log P s \<Longrightarrow> session_log P (step P H url s ev)"
proof (cases ev)
  case (EvRequest n i)
  assume "session_log P s"
  with EvRequest show ?thesis by (simp add: on_request_def session_log_def)
next
  case (EvResponse r now)
  assume "session_log P s"
  with EvResponse show ?thesis by (auto intro: note_result_log on_response_log)
next
  case (EvResolveApproval d now)
  assume a: "session_log P s"
  show ?thesis unfolding EvResolveApproval step.simps resolve_approval_def Let_def
    by (rule resumes_log) (use a in \<open>simp add: session_log_def\<close>)
next
  case (EvBodyRead k now)
  assume a: "session_log P s"
  then have "session_log P (s\<lparr>reading := q\<rparr>)" for q by (simp add: session_log_def)
  with a EvBodyRead show ?thesis
    by (auto simp: body_read_def finish_read_def intro: deliver_log split: prod.splits)
next
  case EvStartCaptureSession
  assume "session_log P s"
  with EvStartCaptureSession show ?thesis
    by (auto simp: startCaptureSession_def startCapture_def setCaptureListener_def Let_def
        session_log_def split: prod.splits option.splits sum.splits)
next
  case EvFinalizeCapture
  assume "session_log P s"
  with EvFinalizeCapture show ?thesis
    by (auto simp: finalizeCapture_def setCaptureListener_def stopCapture_def session_log_def)
next
  case (EvSetMode m)
  assume "session_log P s"
  with EvSetMode show ?thesis by (simp add: session_log_def)
qed

lemma run_log: "session_log P s \<Longrightarrow> session_log P (run P H url evs s)"
  unfolding run_def
  by (induction evs arbitrary: s) (auto intro: step_log)

lemma session_log_new: "session_log P new_System"
  by (simp add: session_log_def new_System_def new_Session_def new_NetworkRecorder_def
      listened_def)

lemma split_at_first:
  "a \<notin> set xs \<Longrightarrow> a \<notin> set xs' \<Longrightarrow> xs @ a # ys = xs' @ a # ys' \<Longrightarrow> xs = xs' \<and> ys = ys'"
proof (induction xs arbitrary: xs')
  case Nil
  then show ?case by (cases xs') auto
next
  case (Cons x xs)
  then show ?case by (cases xs') auto
qed

lemma same_endpoint:
  assumes "P (cc_url c) = Some u" "P (cc_url c') = Some u'"
      and "plain_endpoint c u" "plain_endpoint c' u'"
  shows "getApiKey P c = getApiKey P c' \<longleftrightarrow>
         cc_method c = cc_method c' \<and> hostname u = hostname u' \<and> pathname u = pathname u'"
proof
  assume k: "getApiKey P c = getApiKey P c'"
  from assms(3) obtain p where p: "pathname u = CHR ''/'' # p"
    by (cases "pathname u") (auto simp: plain_endpoint_def)
  from assms(4) obtain p' where p': "pathname u' = CHR ''/'' # p'"
    by (cases "pathname u'") (auto simp: plain_endpoint_def)
  from k assms(1,2) have e: "cc_method c @ CHR '' '' # (hostname u @ pathname u) =
      cc_method c' @ CHR '' '' # (hostname u' @ pathname u')"
    by (simp add: getApiKey_def)
  from assms(3,4) have "CHR '' '' \<notin> set (cc_method c)" "CHR '' '' \<notin> set (cc_method c')"
    by (simp_all add: plain_endpoint_def)
  from split_at_first [OF this e]
  have m: "cc_method c = cc_method c'" and r: "hostname u @ pathname u = hostname u' @ pathname u'"
    by simp_all
  from assms(3,4) have "CHR ''/'' \<notin> set (hostname u)" "CHR ''/'' \<notin> set (hostname u')"
    by (simp_all add: plain_endpoint_def)
  from split_at_first [OF this r [unfolded p p']]
  have "hostname u = hostname u'" "p = p'" by simp_all
  with m p p' show "cc_method c = cc_method c' \<and> hostname u = hostname u' \<and> pathname u = pathname u'"
    by simp
next
  assume "cc_method c = cc_method c' \<and> hostname u = hostname u' \<and> pathname u = pathname u'"
  with assms(1,2) show "getApiKey P c = getApiKey P c'" by (simp add: getApiKey_def)
qed

section \<open>Properties of the exploration loop\<close>

lemma hrefs_of_snoc:
  "hrefs_of (cs @ [c]) =
     (case href c of None \<Rightarrow> hrefs_of cs
      | Some h \<Rightarrow> if h = [] then hrefs_of cs else insert h (hrefs_of cs))"
  by (auto simp: hrefs_of_def split: option.splits)

lemma navigate_to_inv:
  assumes "budget_inv st" "explored st < 8" "\<not> isUnsafeLabel (label c)"
    and "navigate_to env i c (st\<lparr>attempts := attempts st @ [c]\<rparr>) = Some st1"
  shows "budget_inv (st1\<lparr>explored := explored st1 + 1, navigated := navigated st1 @ [c]\<rparr>)"
  using assms
  by (auto simp: budget_inv_def navigate_to_def hrefs_of_snoc truthy_def
      split: if_splits option.splits)

lemma attempt_inv:
  "budget_inv st \<Longrightarrow> \<not> isUnsafeLabel (label c) \<Longrightarrow>
   budget_inv (st\<lparr>attempts := attempts st @ [c]\<rparr>)"
  by (auto simp: budget_inv_def)

lemma visit_loop_inv:
  "budget_inv st \<Longrightarrow> visit_loop P url skipLabels env i cs st = (st', e) \<Longrightarrow> budget_inv st'"
proof (induction cs arbitrary: i st)
  case Nil
  then show ?case by simp
next
  case (Cons c cs)
  note inv = Cons.prems(1) and run = Cons.prems(2)
  show ?case
  proof (cases "explored st \<ge> 8")
    case True
    with run inv show ?thesis by simp
  next
    case lt: False
    show ?thesis
    proof (cases "isUnsafeLabel (label c)")
      case True
      with run lt have "visit_loop P url skipLabels env (Suc i) cs st = (st', e)" by simp
      from Cons.IH [OF inv this] show ?thesis .
    next
      case safe: False
      let ?st = "st\<lparr>attempts := attempts st @ [c]\<rparr>"
      consider
        (skip) "visit_loop P url skipLabels env (Suc i) cs st = (st', e)"
      | (stall) "st' = st"
      | (fail) "visit_loop P url skipLabels env (Suc i) cs ?st = (st', e)"
      | (abort) st1 where "navigate_to env i c ?st = Some st1"
          "st' = st1\<lparr>explored := explored st1 + 1, navigated := navigated st1 @ [c]\<rparr>"
      | (go) st1 where "navigate_to env i c ?st = Some st1"
          "visit_loop P url skipLabels env (Suc i) cs
             (st1\<lparr>explored := explored st1 + 1, navigated := navigated st1 @ [c]\<rparr>) = (st', e)"
        using run lt safe
        by (auto simp: Let_def split: if_splits option.splits)
      then show ?thesis
      proof cases
        case skip
        from Cons.IH [OF inv skip] show ?thesis .
      next
        case stall
        with inv show ?thesis by simp
      next
        case fail
        from Cons.IH [OF attempt_inv [OF inv safe] fail] show ?thesis .
      next
        case abort
        from lt have "explored st < 8" by simp
        from navigate_to_inv [OF inv this safe abort(1)] abort(2) show ?thesis by simp
      next
        case go
        from lt have "explored st < 8" by simp
        from Cons.IH [OF navigate_to_inv [OF inv this safe go(1)] go(2)] show ?thesis .
      qed
    qed
  qed
qed

lemma budget_inv_new: "budget_inv new_Exploration"
  by (simp add: budget_inv_def new_Exploration_def hrefs_of_def)

lemma exploreVisiblePages_inv:
  "exploreVisiblePages P url plan env candidates = (st, e) \<Longrightarrow> budget_inv st"
  using visit_loop_inv [OF budget_inv_new] budget_inv_new
  by (auto simp: exploreVisiblePages_def split: if_splits)

lemma failed_navigation_step:
  assumes "reaches_navigation P url skipLabels env i c st" "\<not> navigates env i"
  shows "visit_loop P url skipLabels env i (c # rest) st =
         visit_loop P url skipLabels env (Suc i) rest (st\<lparr>attempts := attempts st @ [c]\<rparr>)"
  using assms by (auto simp: reaches_navigation_def navigate_to_def)

section \<open>The claim about the risk classifier\<close>

text \<open>
  C2, as stated, promises \<open>Medium\<close> for \<open>PUT\<close> and \<open>PATCH\<close> on every URL without one
  of the six financial keywords. \<open>PUT https://x.com/account/close\<close> has none of them and
  is not \<open>Medium\<close>: the account-deletion rule comes first.
\<close>

theorem non_keyword_put_counterexample:
  "\<not> matches_financial (toLowerCase ''https://x.com/account/close'') \<and>
   toUpperCase ''PUT'' = ''PUT'' \<and>
   assessRisk ''PUT'' ''https://x.com/account/close'' \<noteq> Medium"
  by code_simp

text \<open>
  C2, amended. \<open>assessRisk\<close> is a function of (method, URL) alone, and its value is that
  of the first rule that holds, in the order: \<open>DELETE\<close> in any letter case, high; a
  financial keyword in the URL, high; an account-deletion path, high; \<open>PUT\<close> or
  \<open>PATCH\<close>, medium; an auth path (\<open>/auth/\<close>, \<open>/login\<close>, \<open>/logout\<close>,
  \<open>/register\<close>), medium; otherwise low. So \<open>DELETE\<close> is high on every URL, \<open>PUT\<close>
  and \<open>PATCH\<close> are medium on every URL with neither a financial keyword nor an
  account-deletion path, and \<open>GET /products\<close> is low.
\<close>

theorem assessRisk_priority:
  "assessRisk m u = first_match spec_rules m u \<and>
   (toUpperCase m = ''DELETE'' \<longrightarrow> assessRisk m u = High) \<and>
   ((toUpperCase m = ''PUT'' \<or> toUpperCase m = ''PATCH'') \<and>
    \<not> matches_financial (toLowerCase u) \<and>
    \<not> matches_account_deletion (toLowerCase u) \<longrightarrow> assessRisk m u = Medium) \<and>
   assessRisk ''GET'' ''/products'' = Low"
proof -
  have a: "assessRisk m u = first_match spec_rules m u"
    by (simp add: assessRisk_def spec_rules_def Let_def)
  have b: "toUpperCase m = ''DELETE'' \<longrightarrow> assessRisk m u = High"
    by (simp add: assessRisk_def Let_def)
  have c: "(toUpperCase m = ''PUT'' \<or> toUpperCase m = ''PATCH'') \<and>
    \<not> matches_financial (toLowerCase u) \<and>
    \<not> matches_account_deletion (toLowerCase u) \<longrightarrow> assessRisk m u = Medium"
    by (auto simp: assessRisk_def Let_def)
  have d: "assessRisk ''GET'' ''/products'' = Low" by code_simp
  from a b c d show ?thesis by blast
qed

theorem assessRisk_priority_witness:
  "assessRisk ''delete'' ''https://x.com/a'' = High \<and>
   assessRisk ''Patch'' ''https://x.com/api/profile'' = Medium \<and>
   assessRisk ''PUT'' ''https://x.com/account/close'' = High"
proof -
  have 1: "toUpperCase ''delete'' = ''DELETE''" by code_simp
  have 2: "toUpperCase ''Patch'' = ''PATCH''" by code_simp
  have 3: "\<not> matches_financial (toLowerCase ''https://x.com/api/profile'')" by code_simp
  have 4: "\<not> matches_account_deletion (toLowerCase ''https://x.com/api/profile'')" by code_simp
  have 5: "first_match spec_rules ''PUT'' ''https://x.com/account/close'' = High" by code_simp
  from assessRisk_priority [of "''delete''" "''https://x.com/a''"]
       assessRisk_priority [of "''Patch''" "''https://x.com/api/profile''"]
       assessRisk_priority [of "''PUT''" "''https://x.com/account/close''"]
       1 2 3 4 5
  show ?thesis by metis
qed

section \<open>The claims about the agent core\<close>

text \<open>
  C1. \<open>handleNetworkCall(method, url, status)\<close> always emits the \<open>network\<close> event
  first. When the classified risk is high, in any execution mode, or medium while the
  mode is \<open>EXECUTE\<close>, it emits \<open>approval_required\<close>, parks a fresh promise in the
  approval slot and returns that promise's decision: nothing is delivered until
  \<open>resolveApproval d\<close>, which delivers \<open>d\<close>. In every other case it returns
  \<open>null\<close>, with the approval slot and the promises untouched and no
  \<open>approval_required\<close> event.
\<close>

theorem handleNetworkCall_gates:
  assumes "promises_ok s" and "handleNetworkCall H m url status now s = (s', g)"
  shows "take (Suc (length (emitted s))) (emitted s') = emitted s @ [Network m url status now] \<and>
    (if assessRisk m url = High \<or> (assessRisk m url = Medium \<and> mode s = EXECUTE)
     then g = Awaits (next_promise s) \<and> resolver s' = Some (next_promise s) \<and>
          emitted s' = emitted s @ [Network m url status now,
             ApprovalRequired (action_text m url) m url (assessRisk m url)] \<and>
          delivered s' g = None \<and>
          (\<forall>d. delivered (resolveApproval d s') g = Some (Some d))
     else g = ReturnsNull \<and> delivered s' g = Some None \<and>
          resolver s' = resolver s \<and> settled s' = settled s \<and>
          next_promise s' = next_promise s \<and>
          emitted s' = emitted s @ [Network m url status now])"
  using handleNetworkCall_cases [OF assms(2)] assms(1)
  by (auto simp: promises_ok_def resolveApproval_def resolve_promise_def split: if_splits)

theorem handleNetworkCall_gates_witness:
  "promises_ok new_Agent \<and> mode new_Agent = OBSERVE_ONLY \<and>
   snd (handleNetworkCall quiet ''POST'' ''https://x.com/api/checkout'' 200 7 new_Agent) = Awaits 0 \<and>
   snd (handleNetworkCall quiet ''PATCH'' ''https://x.com/api/profile'' 200 7 new_Agent) = ReturnsNull \<and>
   snd (handleNetworkCall quiet ''PATCH'' ''https://x.com/api/profile'' 200 7
          (new_Agent\<lparr>mode := EXECUTE\<rparr>)) = Awaits 0"
proof -
  have r1: "assessRisk ''POST'' ''https://x.com/api/checkout'' = High" by code_simp
  have r2: "assessRisk ''PATCH'' ''https://x.com/api/profile'' = Medium" by code_simp
  have ok2: "promises_ok (new_Agent\<lparr>mode := EXECUTE\<rparr>)"
    by (simp add: promises_ok_def new_Agent_def)
  have np: "next_promise new_Agent = 0" "mode new_Agent = OBSERVE_ONLY"
    by (simp_all add: new_Agent_def)
  show ?thesis
    using handleNetworkCall_gates [OF promises_ok_new, of quiet "''POST''" "''https://x.com/api/checkout''" 200 7
        "fst (handleNetworkCall quiet ''POST'' ''https://x.com/api/checkout'' 200 7 new_Agent)"
        "snd (handleNetworkCall quiet ''POST'' ''https://x.com/api/checkout'' 200 7 new_Agent)"]
      handleNetworkCall_gates [OF promises_ok_new, of quiet "''PATCH''" "''https://x.com/api/profile''" 200 7
        "fst (handleNetworkCall quiet ''PATCH'' ''https://x.com/api/profile'' 200 7 new_Agent)"
        "snd (handleNetworkCall quiet ''PATCH'' ''https://x.com/api/profile'' 200 7 new_Agent)"]
      handleNetworkCall_gates [OF ok2, of quiet "''PATCH''" "''https://x.com/api/profile''" 200 7
        "fst (handleNetworkCall quiet ''PATCH'' ''https://x.com/api/profile'' 200 7 (new_Agent\<lparr>mode := EXECUTE\<rparr>))"
        "snd (handleNetworkCall quiet ''PATCH'' ''https://x.com/api/profile'' 200 7 (new_Agent\<lparr>mode := EXECUTE\<rparr>))"]
    by (simp add: r1 r2 np promises_ok_new)
qed

text \<open>
  C6. \<open>resolveApproval\<close> with an empty approval slot returns the state unchanged.
  With promise \<open>p\<close> in the slot, \<open>p\<close> was pending, it is resolved with the supplied
  decision, no other promise changes, the slot is cleared, and a second
  \<open>resolveApproval\<close> right after changes nothing. The promise a \<open>requestApproval\<close>
  waits on is the one the next \<open>resolveApproval\<close> resolves.
\<close>

theorem resolveApproval_rendezvous:
  assumes "promises_ok s"
  shows "(resolver s = None \<longrightarrow> resolveApproval d s = s) \<and>
    (\<forall>p. resolver s = Some p \<longrightarrow>
       settled s p = None \<and>
       resolveApproval d s = s\<lparr>settled := (settled s)(p \<mapsto> d), resolver := None\<rparr> \<and>
       settled (resolveApproval d s) p = Some d \<and>
       (\<forall>q. q \<noteq> p \<longrightarrow> settled (resolveApproval d s) q = settled s q) \<and>
       resolver (resolveApproval d s) = None \<and>
       resolveApproval d' (resolveApproval d s) = resolveApproval d s) \<and>
    (\<forall>H pl s1 p. requestApproval H pl s = (s1, p) \<longrightarrow>
       settled s1 p = None \<and> settled (resolveApproval d s1) p = Some d)"
proof -
  have a: "resolver s = None \<longrightarrow> resolveApproval d s = s"
    by (simp add: resolveApproval_def)
  have b: "\<forall>p. resolver s = Some p \<longrightarrow>
       settled s p = None \<and>
       resolveApproval d s = s\<lparr>settled := (settled s)(p \<mapsto> d), resolver := None\<rparr> \<and>
       settled (resolveApproval d s) p = Some d \<and>
       (\<forall>q. q \<noteq> p \<longrightarrow> settled (resolveApproval d s) q = settled s q) \<and>
       resolver (resolveApproval d s) = None \<and>
       resolveApproval d' (resolveApproval d s) = resolveApproval d s"
    using assms by (auto simp: promises_ok_def resolveApproval_def resolve_promise_def)
  have c: "\<forall>H pl s1 p. requestApproval H pl s = (s1, p) \<longrightarrow>
       settled s1 p = None \<and> settled (resolveApproval d s1) p = Some d"
  proof (intro allI impI)
    fix H pl s1 p
    assume rq: "requestApproval H pl s = (s1, p)"
    obtain a m e r where pl: "pl = (a, m, e, r)" by (cases pl) auto
    from requestApproval_parks [OF rq [unfolded pl]] assms
    show "settled s1 p = None \<and> settled (resolveApproval d s1) p = Some d"
      by (auto simp: promises_ok_def resolveApproval_def resolve_promise_def)
  qed
  from a b c show ?thesis by blast
qed

theorem resolveApproval_rendezvous_witness:
  "promises_ok new_Agent \<and> resolveApproval Yes new_Agent = new_Agent \<and>
   settled (resolveApproval Doc (fst (requestApproval quiet (''a'', ''GET'', ''/x'', High) new_Agent))) 0 = Some Doc"
proof -
  have n: "resolver new_Agent = None" by (simp add: new_Agent_def)
  have p: "snd (requestApproval quiet (''a'', ''GET'', ''/x'', High) new_Agent) = 0"
    by (simp add: requestApproval_def Let_def emit_def new_Agent_def forEach.simps)
  show ?thesis
    using resolveApproval_rendezvous [OF promises_ok_new, of Yes Yes]
      resolveApproval_rendezvous [OF promises_ok_new, of Doc Doc] n p
    by (metis prod.collapse promises_ok_new)
qed

text \<open>
  C7. The approval slot holds one resolve function. When a request is still pending
  (possibly after other calls that did not resolve it) and \<open>requestApproval\<close> is
  called again, the slot holds the new promise, a different one, and after any further
  run of agent calls, \<open>resolveApproval\<close> with any decision included, the earlier
  promise is still pending and is never back in the slot.
\<close>

theorem superseded_request_never_resolves:
  assumes "requestApproval H pl1 s = (s1, p1)"
      and "settled (run_ops H mid s1) p1 = None"
      and "requestApproval H pl2 (run_ops H mid s1) = (s2, p2)"
  shows "resolver s2 = Some p2 \<and> p2 \<noteq> p1 \<and>
     (\<forall>ops. settled (run_ops H ops s2) p1 = None \<and>
            delivered (run_ops H ops s2) (Awaits p1) = None \<and>
            resolver (run_ops H ops s2) \<noteq> Some p1)"
proof -
  obtain a m e r where pl1: "pl1 = (a, m, e, r)" by (cases pl1) auto
  obtain a' m' e' r' where pl2: "pl2 = (a', m', e', r')" by (cases pl2) auto
  from requestApproval_parks [OF assms(1) [unfolded pl1]]
  have "p1 < next_promise s1" by simp
  with run_ops_next_promise [of s1 H mid] have lt: "p1 < next_promise (run_ops H mid s1)" by simp
  from requestApproval_parks [OF assms(3) [unfolded pl2]]
  have r2: "resolver s2 = Some p2" and p2: "p2 = next_promise (run_ops H mid s1)"
    and n2: "next_promise s2 = Suc p2" and st: "settled s2 = settled (run_ops H mid s1)"
    by simp_all
  from lt p2 have ne: "p2 \<noteq> p1" by simp
  have "orphaned p1 s2" using lt p2 n2 st assms(2) r2 ne by (simp add: orphaned_def)
  then have "\<forall>ops. orphaned p1 (run_ops H ops s2)" by (simp add: run_ops_orphaned)
  with r2 ne show ?thesis by (simp add: orphaned_def)
qed

theorem superseded_request_never_resolves_witness:
  "settled (run_ops quiet [OpResolveApproval Yes, OpResolveApproval No]
      (fst (requestApproval quiet (''b'', ''DELETE'', ''/y'', High)
         (fst (requestApproval quiet (''a'', ''DELETE'', ''/x'', High) new_Agent))))) 0 = None"
proof -
  let ?r1 = "requestApproval quiet (''a'', ''DELETE'', ''/x'', High) new_Agent"
  let ?r2 = "requestApproval quiet (''b'', ''DELETE'', ''/y'', High) (fst ?r1)"
  have p1: "snd ?r1 = 0" and s1: "settled (fst ?r1) 0 = None"
    by (simp_all add: requestApproval_def Let_def emit_def new_Agent_def forEach.simps)
  have a1: "?r1 = (fst ?r1, 0)" using p1 by (metis prod.collapse)
  have a2: "settled (run_ops quiet [] (fst ?r1)) 0 = None" using s1 by (simp add: run_ops_def)
  have a3: "requestApproval quiet (''b'', ''DELETE'', ''/y'', High) (run_ops quiet [] (fst ?r1)) = (fst ?r2, snd ?r2)"
    by (simp add: run_ops_def)
  from superseded_request_never_resolves [OF a1 a2 a3]
  show ?thesis by blast
qed

text \<open>
  C8. \<open>emit(event)\<close> calls the listeners that were registered when it was called, each
  once per registration and in registration order: for listeners of any effect made
  through the agent's methods (subscribing, unsubscribing, emitting again) the dispatch
  over the array object is the fold of the calls over the list as it was then. For
  listeners that subscribe and unsubscribe, the calls recorded are exactly those, every
  change the handlers made has been applied, in order, to the listener list when \<open>emit\<close>
  returns, and it is that list the next \<open>emit\<close> dispatches to.
\<close>

theorem emit_dispatches_snapshot:
  assumes "heap_ok s" and "through_methods L"
  shows "emit L ev s =
      foldl (\<lambda>s l. invoke L l ev s) (s\<lparr>emitted := emitted s @ [ev]\<rparr>) (current_listeners s) \<and>
    heap_ok (emit L ev s) \<and>
    through_methods (script H) \<and> through_methods (\<lambda>l e. emit L (f l e)) \<and>
    invoked (emit (script H) ev s) = invoked s @ map (\<lambda>l. (l, ev)) (current_listeners s) \<and>
    current_listeners (emit (script H) ev s) =
      foldl list_call (current_listeners s)
        (concat (map (\<lambda>l. H l ev) (current_listeners s))) \<and>
    invoked (emit (script H) ev' (emit (script H) ev s)) =
      invoked (emit (script H) ev s) @
      map (\<lambda>l. (l, ev')) (current_listeners (emit (script H) ev s))"
proof -
  note ef = emit_fold [OF assms(2,1), of ev]
  from emit_snapshot [OF assms(1), of H ev] have h: "heap_ok (emit (script H) ev s)" by simp
  note a = emit_snapshot [OF assms(1), of H ev] and b = emit_snapshot [OF h, of H ev']
  from ef have 1: "emit L ev s =
      foldl (\<lambda>s l. invoke L l ev s) (s\<lparr>emitted := emitted s @ [ev]\<rparr>) (current_listeners s)"
    by blast
  from ef have 2: "heap_ok (emit L ev s)" by blast
  note 3 = through_methods_script [of H] and 4 = through_methods_emit [OF assms(2), of f]
  from a have 5: "invoked (emit (script H) ev s) = invoked s @ map (\<lambda>l. (l, ev)) (current_listeners s)"
    by blast
  from a have 6: "current_listeners (emit (script H) ev s) =
      foldl list_call (current_listeners s)
        (concat (map (\<lambda>l. H l ev) (current_listeners s)))"
    by blast
  from b have 7: "invoked (emit (script H) ev' (emit (script H) ev s)) =
      invoked (emit (script H) ev s) @
      map (\<lambda>l. (l, ev')) (current_listeners (emit (script H) ev s))"
    by blast
  from 1 2 3 4 5 6 7 show ?thesis by blast
qed

theorem emit_dispatches_snapshot_witness:
  "heap_ok three_listeners \<and> through_methods reemitter \<and>
   current_listeners three_listeners = [1, 2, 3] \<and>
   invoked (emit (script swapper) (Info ''x'') three_listeners) =
     [(1, Info ''x''), (2, Info ''x''), (3, Info ''x'')] \<and>
   current_listeners (emit (script swapper) (Info ''x'') three_listeners) = [3, 7, 9] \<and>
   invoked (emit (script swapper) (Info ''y'') (emit (script swapper) (Info ''x'') three_listeners)) =
     [(1, Info ''x''), (2, Info ''x''), (3, Info ''x''),
      (3, Info ''y''), (7, Info ''y''), (9, Info ''y'')] \<and>
   invoked (emit reemitter (Info ''x'') three_listeners) =
     [(1, Info ''x''), (1, Info ''y''), (3, Info ''y''), (2, Info ''x''), (3, Info ''x'')]"
proof -
  have h: "heap_ok three_listeners"
    by (simp add: heap_ok_def three_listeners_def onEvent_def new_Agent_def)
  have c: "current_listeners three_listeners = [1, 2, 3]"
    by (simp add: current_listeners_def three_listeners_def onEvent_def new_Agent_def)
  have i: "invoked three_listeners = []"
    by (simp add: three_listeners_def onEvent_def new_Agent_def)
  note t = emit_dispatches_snapshot [OF h through_methods_reemitter, of "Info ''x''" swapper
      "\<lambda>l e. e" "Info ''y''"]
  from t have e: "emit reemitter (Info ''x'') three_listeners =
      foldl (\<lambda>s l. invoke reemitter l (Info ''x'') s)
        (three_listeners\<lparr>emitted := emitted three_listeners @ [Info ''x'']\<rparr>)
        (current_listeners three_listeners)"
    by blast
  have r: "invoked (foldl (\<lambda>s l. invoke reemitter l (Info ''x'') s)
        (three_listeners\<lparr>emitted := emitted three_listeners @ [Info ''x'']\<rparr>) [1, 2, 3]) =
     [(1, Info ''x''), (1, Info ''y''), (3, Info ''y''), (2, Info ''x''), (3, Info ''x'')]"
    by code_simp
  from t have a: "invoked (emit (script swapper) (Info ''x'') three_listeners) =
      invoked three_listeners @ map (\<lambda>l. (l, Info ''x'')) (current_listeners three_listeners)"
    and b: "current_listeners (emit (script swapper) (Info ''x'') three_listeners) =
      foldl list_call (current_listeners three_listeners)
        (concat (map (\<lambda>l. swapper l (Info ''x'')) (current_listeners three_listeners)))"
    and d: "invoked (emit (script swapper) (Info ''y'') (emit (script swapper) (Info ''x'') three_listeners)) =
      invoked (emit (script swapper) (Info ''x'') three_listeners) @
      map (\<lambda>l. (l, Info ''y'')) (current_listeners (emit (script swapper) (Info ''x'') three_listeners))"
    by blast+
  from a b d e r h c i through_methods_reemitter show ?thesis
    by (simp add: swapper_def)
qed

section \<open>The claims about the recorder\<close>

text \<open>
  C3, as stated, makes the four conditions sufficient. In a capture session on
  \<open>https://x.com\<close> the page's own \<open>DELETE https://x.com/1\<close>, an xhr with a
  request record, meets them all, and its response appends nothing: the handler waits
  for the approval of the high-risk call, it is not reading the body. When a second
  \<open>DELETE\<close> follows before the user answers, then two answers later, the one body
  being read having arrived, only the second call is in the list, no handler is
  reading, and the handler of the first call is still parked.
\<close>

theorem gated_response_counterexample:
  "claimed_capture simple_url
     (recorder (run simple_url quiet ''https://x.com'' delete_requested new_System))
     (requests (recorder (run simple_url quiet ''https://x.com'' delete_requested new_System)) 1) \<and>
   capturedCalls (recorder (run simple_url quiet ''https://x.com'' delete_once new_System)) = [] \<and>
   map cc_url (capturedCalls (recorder (run simple_url quiet ''https://x.com'' delete_twice new_System)))
     = [''https://x.com/2''] \<and>
   reading (run simple_url quiet ''https://x.com'' delete_once new_System) = [] \<and>
   reading (run simple_url quiet ''https://x.com'' delete_twice new_System) = [] \<and>
   map (\<lambda>h. rs_url (fst (snd h))) (parked (run simple_url quiet ''https://x.com'' delete_twice new_System))
     = [''https://x.com/1'']"
  by code_simp

text \<open>
  C3, amended. The response handler appends a \<open>CapturedCall\<close> exactly when the agent's
  risk gate lets it run on and, at that moment, a capture session is active, the request
  was recorded, its resource type is xhr or fetch and, unless third-party inclusion is
  enabled or no base domain is configured, the request's URL parses and its host is the
  capture's base domain or ends with a dot and that domain. The gate lets the handler
  run on at once when \<open>handleNetworkCall\<close> returns \<open>null\<close>; otherwise the handler is
  parked on its approval promise, appends nothing, and is put to the same test when it
  resumes. A handler that passes the test appends its call at once when the content type
  is neither JSON nor plain text; otherwise it awaits the body, and appends the call when
  the body has been read, in the order in which the bodies arrive and without a second
  test, whatever the recorder's state is by then. In every reachable state an answer from
  the user resumes the handler parked on the promise in the approval slot, at most one,
  and no other.
\<close>

theorem response_captured_iff:
  assumes "on_response P H now response s = (s', res)"
      and "info = requests (recorder s) (rs_request response)"
      and "m = response_method info response"
      and "handleNetworkCall H m (rs_url response) (rs_status response) now (agent s) = (a, g)"
  shows "(g = ReturnsNull \<and> captures P (recorder s) info \<longrightarrow>
            (\<exists>i. info = Some i \<and>
               (\<not> reads_body response \<longrightarrow>
                  capturedCalls (recorder s') =
                    capturedCalls (recorder s) @ [build_call m response i now] \<and>
                  reading s' = reading s) \<and>
               (reads_body response \<longrightarrow>
                  capturedCalls (recorder s') = capturedCalls (recorder s) \<and>
                  reading s' = reading s @ [(response, i, m)]))) \<and>
         (\<not> (g = ReturnsNull \<and> captures P (recorder s) info) \<longrightarrow>
            capturedCalls (recorder s') = capturedCalls (recorder s) \<and>
            reading s' = reading s) \<and>
         (\<forall>p. g = Awaits p \<longrightarrow>
            res = Suspended p \<and> parked s' = parked s @ [(p, response, info, m)] \<and>
            (\<forall>t s2. capturedCalls (recorder (resume P t s2 (p, response, info, m))) =
                capturedCalls (recorder s2) @
                (if reads_body response then []
                 else appended P t m response info (recorder s2)) \<and>
              reading (resume P t s2 (p, response, info, m)) =
                reading s2 @
                (if reads_body response then queued P m response info (recorder s2)
                 else []))) \<and>
         (\<forall>evs d t. resumed_on_answer P d t (run P H url evs new_System)) \<and>
         (\<forall>k t s2.
            capturedCalls (recorder (body_read P k t s2)) =
              capturedCalls (recorder s2) @
              (if k < length (reading s2)
               then (case reading s2 ! k of (r, i, q) \<Rightarrow> [build_call q r i t])
               else []) \<and>
            reading (body_read P k t s2) =
              (if k < length (reading s2) then take k (reading s2) @ drop (Suc k) (reading s2)
               else reading s2))"
proof -
  have res: "\<forall>t s2. capturedCalls (recorder (resume P t s2 (p, response, info, m))) =
                capturedCalls (recorder s2) @
                (if reads_body response then []
                 else appended P t m response info (recorder s2)) \<and>
              reading (resume P t s2 (p, response, info, m)) =
                reading s2 @
                (if reads_body response then queued P m response info (recorder s2)
                 else [])" for p
  proof (intro allI)
    fix t s2
    obtain s3 r3 where ag: "after_gate P t m response info s2 = (s3, r3)"
      by (cases "after_gate P t m response info s2") auto
    from after_gate_appended [OF ag] ag
    show "capturedCalls (recorder (resume P t s2 (p, response, info, m))) =
                capturedCalls (recorder s2) @
                (if reads_body response then []
                 else appended P t m response info (recorder s2)) \<and>
              reading (resume P t s2 (p, response, info, m)) =
                reading s2 @
                (if reads_body response then queued P m response info (recorder s2)
                 else [])"
      by (cases r3) (simp_all add: resume_def note_result_def)
  qed
  have ans: "\<forall>evs d t. resumed_on_answer P d t (run P H url evs new_System)"
  proof (intro allI)
    fix evs d t
    let ?s = "run P H url evs new_System"
    from run_parked_ok [OF parked_ok_new, of P H url evs]
    have ok: "parked_ok ?s" .
    then have pend: "\<forall>h \<in> set (parked ?s). settled (agent ?s) (fst h) = None"
      by (simp add: parked_ok_def)
    show "resumed_on_answer P d t ?s"
      unfolding resumed_on_answer_def
      using resolve_approval_idle [OF _ pend, of P d t]
        resolve_approval_resumes [OF _ pend, of _ P d t] parked_ok_one [OF ok]
      by (cases "resolver (agent ?s)") simp_all
  qed
  have body: "\<forall>k t s2.
            capturedCalls (recorder (body_read P k t s2)) =
              capturedCalls (recorder s2) @
              (if k < length (reading s2)
               then (case reading s2 ! k of (r, i, q) \<Rightarrow> [build_call q r i t])
               else []) \<and>
            reading (body_read P k t s2) =
              (if k < length (reading s2) then take k (reading s2) @ drop (Suc k) (reading s2)
               else reading s2)"
    using body_read_appended [of P] by blast
  have main: "(g = ReturnsNull \<and> captures P (recorder s) info \<longrightarrow>
            (\<exists>i. info = Some i \<and>
               (\<not> reads_body response \<longrightarrow>
                  capturedCalls (recorder s') =
                    capturedCalls (recorder s) @ [build_call m response i now] \<and>
                  reading s' = reading s) \<and>
               (reads_body response \<longrightarrow>
                  capturedCalls (recorder s') = capturedCalls (recorder s) \<and>
                  reading s' = reading s @ [(response, i, m)]))) \<and>
         (\<not> (g = ReturnsNull \<and> captures P (recorder s) info) \<longrightarrow>
            capturedCalls (recorder s') = capturedCalls (recorder s) \<and>
            reading s' = reading s) \<and>
         (\<forall>p. g = Awaits p \<longrightarrow>
            res = Suspended p \<and> parked s' = parked s @ [(p, response, info, m)] \<and>
            (\<forall>t s2. capturedCalls (recorder (resume P t s2 (p, response, info, m))) =
                capturedCalls (recorder s2) @
                (if reads_body response then []
                 else appended P t m response info (recorder s2)) \<and>
              reading (resume P t s2 (p, response, info, m)) =
                reading s2 @
                (if reads_body response then queued P m response info (recorder s2)
                 else [])))"
  proof (cases g)
    case ReturnsNull
    with assms have ag: "after_gate P now m response info (s\<lparr>agent := a\<rparr>) = (s', res)"
      by (simp add: on_response_def Let_def)
    from after_gate_appended [OF ag] ReturnsNull show ?thesis
      by (cases info) (auto simp: appended_def queued_def captures_def)
  next
    case (Awaits p)
    with assms have "s' = s\<lparr>agent := a, parked := parked s @ [(p, response, info, m)]\<rparr>"
      and "res = Suspended p"
      by (simp_all add: on_response_def Let_def)
    with Awaits res show ?thesis by simp
  qed
  from main ans body show ?thesis by blast
qed

theorem response_captured_iff_witness:
  "capturedCalls (recorder (fst (on_response simple_url quiet 5 items_response items_requested))) = [] \<and>
   map cc_url (capturedCalls (recorder
      (body_read simple_url 0 6
         (fst (on_response simple_url quiet 5 items_response items_requested)))))
     = [''https://x.com/api/items''] \<and>
   map cc_url (capturedCalls (recorder (fst (on_response simple_url quiet 5 items_page items_requested))))
     = [''https://x.com/api/items'']"
proof -
  let ?info = "requests (recorder items_requested) (rs_request items_response)"
  let ?m = "response_method ?info items_response"
  let ?h = "handleNetworkCall quiet ?m (rs_url items_response) (rs_status items_response) 5
              (agent items_requested)"
  let ?o = "on_response simple_url quiet 5 items_response items_requested"
  let ?o' = "on_response simple_url quiet 5 items_page items_requested"
  have pg: "rs_request items_page = rs_request items_response"
    "rs_url items_page = rs_url items_response" "rs_status items_page = rs_status items_response"
    "response_method ?info items_page = ?m"
    by (simp_all add: items_page_def response_method_def)
  have g: "snd ?h = ReturnsNull" by code_simp
  have c: "captures simple_url (recorder items_requested) ?info" by code_simp
  have e: "capturedCalls (recorder items_requested) = []" by code_simp
  have r: "reading items_requested = []" by code_simp
  have b: "reads_body items_response" by code_simp
  have b': "\<not> reads_body items_page" by code_simp
  have u: "rs_url items_response = ''https://x.com/api/items''"
    by (simp add: items_response_def json_response_def)
  have o: "?o = (fst ?o, snd ?o)" and o': "?o' = (fst ?o', snd ?o')" and h: "?h = (fst ?h, snd ?h)"
    by simp_all
  note t = response_captured_iff [OF o refl refl h, of "''https://x.com''"]
  from t g c b obtain i where i: "capturedCalls (recorder (fst ?o)) = capturedCalls (recorder items_requested)"
    "reading (fst ?o) = reading items_requested @ [(items_response, i, ?m)]"
    by blast
  from t have "capturedCalls (recorder (body_read simple_url 0 6 (fst ?o))) =
              capturedCalls (recorder (fst ?o)) @
              (if 0 < length (reading (fst ?o))
               then (case reading (fst ?o) ! 0 of (r, i, q) \<Rightarrow> [build_call q r i 6])
               else [])"
    by blast
  with i e r have 2: "map cc_url (capturedCalls (recorder (body_read simple_url 0 6 (fst ?o)))) =
      [''https://x.com/api/items'']"
    by (simp add: build_call_def u)
  from i e have 1: "capturedCalls (recorder (fst ?o)) = []" by simp
  have h': "handleNetworkCall quiet (response_method
        (requests (recorder items_requested) (rs_request items_page)) items_page)
      (rs_url items_page) (rs_status items_page) 5 (agent items_requested) = (fst ?h, snd ?h)"
    by (simp add: pg)
  note t' = response_captured_iff [OF o' refl refl h', of "''https://x.com''"]
  from t' g c b' obtain j where "capturedCalls (recorder (fst ?o')) =
      capturedCalls (recorder items_requested) @
      [build_call (response_method (requests (recorder items_requested) (rs_request items_page))
         items_page) items_page j 5]"
    unfolding pg by blast
  with e have 3: "map cc_url (capturedCalls (recorder (fst ?o'))) = [''https://x.com/api/items'']"
    by (simp add: build_call_def pg u)
  from 1 2 3 show ?thesis by blast
qed

text \<open>
  C9. An unreadable body and a content type other than JSON or plain text leave the
  body undefined (\<open>safeResponseBody_degrades\<close>). A request URL that does not parse does
  not degrade: with the same-site filter in force, \<open>new URL(info.url)\<close> in
  \<open>shouldCapture\<close> throws, and the \<open>TypeError\<close> leaves the response handler.
\<close>

theorem malformed_url_rejects:
  "snd (on_response simple_url quiet 5 (json_response 1 ''GET'' ''not a url'') malformed_requested)
     = Rejected TypeError"
  by code_simp

section \<open>The claim about session-level deduplication\<close>

text \<open>
  C4. After any run of browser, user and session events the session's call list is
  what is left of the calls passed to the capture listener, in the order they were
  passed, when only the first call of each key is kept: it holds no key twice, every
  key that was passed is among its keys, its keys are exactly the recorded key set, and
  so the number of distinct keys is the number of calls retained for writing. The key
  of a call is its method, a space, and the host name and path of its URL (the whole
  URL when it does not parse), and for methods without a space, host names without a
  slash and paths that begin with one, two calls have the same key exactly when method,
  host name and path agree. The recorder's own list holds the calls pushed since the
  capture was started, duplicates included: each call pushed is appended to it, and
  reaches the session's list only when its key occurs for the first time.
\<close>

theorem session_dedup:
  "dedup_inv P (session (run P H url evs new_System)) \<and>
   card (captureUniqueKeys (session (run P H url evs new_System))) =
     length (sessionCalls (session (run P H url evs new_System))) \<and>
   (\<forall>s cs. onCapture (recorder s) = Some OnCapturedCall \<longrightarrow>
      capturedCalls (recorder (foldl (deliver P) s cs)) = capturedCalls (recorder s) @ cs \<and>
      sessionCalls (session (foldl (deliver P) s cs)) =
        sessionCalls (session s) @ first_occurrences P (captureUniqueKeys (session s)) cs) \<and>
   sessionCalls (session (run P H url evs new_System)) =
     first_occurrences P {} (listened (deliveries (run P H url evs new_System))) \<and>
   getApiKey P ` set (sessionCalls (session (run P H url evs new_System))) =
     getApiKey P ` set (listened (deliveries (run P H url evs new_System))) \<and>
   capturedCalls (recorder (run P H url evs new_System)) =
     drop (length (deliveries (run P H url evs new_System)) -
           length (capturedCalls (recorder (run P H url evs new_System))))
       (map fst (deliveries (run P H url evs new_System))) \<and>
   (\<forall>c. getApiKey P c =
      (case P (cc_url c) of
         Some u \<Rightarrow> cc_method c @ '' '' @ hostname u @ pathname u
       | None \<Rightarrow> cc_method c @ '' '' @ cc_url c)) \<and>
   (\<forall>c c' u u'.
      P (cc_url c) = Some u \<and> P (cc_url c') = Some u' \<and>
      plain_endpoint c u \<and> plain_endpoint c' u' \<longrightarrow>
      (getApiKey P c = getApiKey P c' \<longleftrightarrow>
       cc_method c = cc_method c' \<and> hostname u = hostname u' \<and> pathname u = pathname u'))"
proof -
  let ?s = "run P H url evs new_System"
  note inv = run_inv [OF dedup_inv_new, of P H url evs]
  note log = run_log [OF session_log_new, of P H url evs]
  have 1: "dedup_inv P (session ?s)" by (rule inv)
  have 2: "card (captureUniqueKeys (session ?s)) = length (sessionCalls (session ?s))"
    by (rule dedup_inv_card [OF inv])
  have 3: "\<forall>s cs. onCapture (recorder s) = Some OnCapturedCall \<longrightarrow>
      capturedCalls (recorder (foldl (deliver P) s cs)) = capturedCalls (recorder s) @ cs \<and>
      sessionCalls (session (foldl (deliver P) s cs)) =
        sessionCalls (session s) @ first_occurrences P (captureUniqueKeys (session s)) cs"
    using delivers_first_occurrences [of _ P] by blast
  from log have 4: "sessionCalls (session ?s) = first_occurrences P {} (listened (deliveries ?s))"
    by (simp add: session_log_def)
  have 5: "getApiKey P ` set (sessionCalls (session ?s)) =
     getApiKey P ` set (listened (deliveries ?s))"
    unfolding 4 using first_occurrences_keys [of P "{}" "listened (deliveries ?s)"] by simp
  from log have 6: "capturedCalls (recorder ?s) =
     drop (length (deliveries ?s) - length (capturedCalls (recorder ?s))) (map fst (deliveries ?s))"
    by (simp add: session_log_def)
  have 7: "\<forall>c. getApiKey P c =
      (case P (cc_url c) of
         Some u \<Rightarrow> cc_method c @ '' '' @ hostname u @ pathname u
       | None \<Rightarrow> cc_method c @ '' '' @ cc_url c)"
    by (simp add: getApiKey_def)
  have 8: "\<forall>c c' u u'.
      P (cc_url c) = Some u \<and> P (cc_url c') = Some u' \<and>
      plain_endpoint c u \<and> plain_endpoint c' u' \<longrightarrow>
      (getApiKey P c = getApiKey P c' \<longleftrightarrow>
       cc_method c = cc_method c' \<and> hostname u = hostname u' \<and> pathname u = pathname u')"
    using same_endpoint [of P] by blast
  from 1 2 3 4 5 6 7 8 show ?thesis by blast
qed

theorem session_dedup_witness:
  "captured_urls (run simple_url quiet ''https://x.com'' items_twice new_System) =
     ([''https://x.com/api/items?x=2'', ''https://x.com/api/items?x=1'',
       ''https://x.com/api/users''],
      [''https://x.com/api/items?x=2'', ''https://x.com/api/users'']) \<and>
   card (captureUniqueKeys (session (run simple_url quiet ''https://x.com'' items_twice new_System))) = 2 \<and>
   onCapture (recorder capture_started) = Some OnCapturedCall \<and>
   capturedCalls (recorder (foldl (deliver simple_url) capture_started
       [items_call ''1'', items_call ''2'', users_call]))
     = [items_call ''1'', items_call ''2'', users_call] \<and>
   sessionCalls (session (foldl (deliver simple_url) capture_started
       [items_call ''1'', items_call ''2'', users_call]))
     = [items_call ''1'', users_call] \<and>
   getApiKey simple_url (items_call ''1'') = ''GET x.com/api/items'' \<and>
   getApiKey simple_url (items_call ''1'') = getApiKey simple_url (items_call ''2'') \<and>
   getApiKey simple_url (items_call ''1'') \<noteq> getApiKey simple_url users_call"
proof -
  let ?s = "run simple_url quiet ''https://x.com'' items_twice new_System"
  let ?cs = "[items_call ''1'', items_call ''2'', users_call]"
  let ?i = "\<lparr>hostname = ''x.com'', pathname = ''/api/items''\<rparr>"
  let ?u = "\<lparr>hostname = ''x.com'', pathname = ''/api/users''\<rparr>"
  have ab: "captured_urls ?s =
     ([''https://x.com/api/items?x=2'', ''https://x.com/api/items?x=1'',
       ''https://x.com/api/users''],
      [''https://x.com/api/items?x=2'', ''https://x.com/api/users''])"
    by code_simp
  have gb: "getBaseDomain simple_url ''https://x.com'' = Inr ''x.com''" by code_simp
  have c: "onCapture (recorder capture_started) = Some OnCapturedCall"
    and d: "capturedCalls (recorder capture_started) = []"
    and e: "sessionCalls (session capture_started) = []"
    and f: "captureUniqueKeys (session capture_started) = {}"
    by (simp_all add: capture_started_def run_def startCaptureSession_def startCapture_def gb
        setCaptureListener_def new_System_def new_Session_def new_NetworkRecorder_def Let_def)
  have p1: "simple_url (cc_url (items_call ''1'')) = Some ?i" by code_simp
  have p2: "simple_url (cc_url (items_call ''2'')) = Some ?i" by code_simp
  have p3: "simple_url (cc_url users_call) = Some ?u" by code_simp
  have e1: "plain_endpoint (items_call ''1'') ?i" by code_simp
  have e2: "plain_endpoint (items_call ''2'') ?i" by code_simp
  have e3: "plain_endpoint users_call ?u" by code_simp
  have m: "cc_method (items_call ''1'') = ''GET''" "cc_method (items_call ''2'') = ''GET''"
    "cc_method users_call = ''GET''"
    by (simp_all add: items_call_def users_call_def)
  note t = session_dedup [of simple_url quiet "''https://x.com''" items_twice]
  from t have key: "\<forall>c. getApiKey simple_url c =
      (case simple_url (cc_url c) of
         Some u \<Rightarrow> cc_method c @ '' '' @ hostname u @ pathname u
       | None \<Rightarrow> cc_method c @ '' '' @ cc_url c)"
    by blast
  from t have same: "\<forall>c c' u u'.
      simple_url (cc_url c) = Some u \<and> simple_url (cc_url c') = Some u' \<and>
      plain_endpoint c u \<and> plain_endpoint c' u' \<longrightarrow>
      (getApiKey simple_url c = getApiKey simple_url c' \<longleftrightarrow>
       cc_method c = cc_method c' \<and> hostname u = hostname u' \<and> pathname u = pathname u')"
    by blast
  from key p1 m have k1: "getApiKey simple_url (items_call ''1'') = ''GET x.com/api/items''"
    by simp
  from same p1 p2 e1 e2 m
  have k12: "getApiKey simple_url (items_call ''1'') = getApiKey simple_url (items_call ''2'')"
    by simp
  have "getApiKey simple_url (items_call ''1'') = getApiKey simple_url users_call \<longleftrightarrow>
       cc_method (items_call ''1'') = cc_method users_call \<and> hostname ?i = hostname ?u \<and>
       pathname ?i = pathname ?u"
    using same p1 p3 e1 e3 by blast
  then have k13: "getApiKey simple_url (items_call ''1'') \<noteq> getApiKey simple_url users_call"
    by simp
  from ab have "map cc_url (sessionCalls (session ?s)) =
      [''https://x.com/api/items?x=2'', ''https://x.com/api/users'']"
    by (simp only: captured_urls_def prod.inject)
  then have "length (map cc_url (sessionCalls (session ?s))) = 2" by (simp only: list.size)
  then have l: "length (sessionCalls (session ?s)) = 2" by (simp only: length_map)
  from t have "card (captureUniqueKeys (session ?s)) = length (sessionCalls (session ?s))"
    by blast
  with l have g: "card (captureUniqueKeys (session ?s)) = 2" by (simp only:)
  have fo: "first_occurrences simple_url {} ?cs = [items_call ''1'', users_call]"
    using k12 k13 by (simp add: k12 [symmetric])
  from t c have h: "capturedCalls (recorder (foldl (deliver simple_url) capture_started ?cs))
       = capturedCalls (recorder capture_started) @ ?cs \<and>
     sessionCalls (session (foldl (deliver simple_url) capture_started ?cs))
       = sessionCalls (session capture_started) @
         first_occurrences simple_url (captureUniqueKeys (session capture_started)) ?cs"
    by blast
  from h have h1: "capturedCalls (recorder (foldl (deliver simple_url) capture_started ?cs)) = ?cs"
    by (simp only: d append_Nil)
  from h have h2: "sessionCalls (session (foldl (deliver simple_url) capture_started ?cs)) =
      [items_call ''1'', users_call]"
    by (simp only: e f fo append_Nil)
  from ab g c h1 h2 k1 k12 k13 show ?thesis by blast
qed

section \<open>The claims about exploration\<close>

text \<open>
  C5. In a run of \<open>exploreVisiblePages\<close>, whatever the candidates, the plan and the
  behaviour of browser and user, at most 8 candidate pages are visited, and no
  candidate whose label matches the unsafe pattern is navigated to, or even tried, however
  the plan ranks it: the visit loop keeps both bounds on every order of candidates and
  every skip list.
\<close>

theorem exploration_budget:
  assumes "exploreVisiblePages P url plan env candidates = (st, e)"
  shows "length (navigated st) \<le> 8 \<and> explored st \<le> 8 \<and>
     (\<forall>c \<in> set (attempts st). \<not> isUnsafeLabel (label c)) \<and>
     (\<forall>c \<in> set (navigated st). \<not> isUnsafeLabel (label c)) \<and>
     (\<forall>skipLabels ordered st1 e1.
        visit_loop P url skipLabels env 0 ordered new_Exploration = (st1, e1) \<longrightarrow>
        length (navigated st1) \<le> 8 \<and>
        (\<forall>c \<in> set (attempts st1). \<not> isUnsafeLabel (label c)))"
proof -
  have "\<forall>skipLabels ordered st1 e1.
        visit_loop P url skipLabels env 0 ordered new_Exploration = (st1, e1) \<longrightarrow>
        length (navigated st1) \<le> 8 \<and>
        (\<forall>c \<in> set (attempts st1). \<not> isUnsafeLabel (label c))"
  proof (intro allI impI)
    fix skipLabels ordered st1 e1
    assume "visit_loop P url skipLabels env 0 ordered new_Exploration = (st1, e1)"
    from visit_loop_inv [OF budget_inv_new this]
    show "length (navigated st1) \<le> 8 \<and>
        (\<forall>c \<in> set (attempts st1). \<not> isUnsafeLabel (label c))"
      by (simp add: budget_inv_def)
  qed
  moreover from exploreVisiblePages_inv [OF assms]
  have "length (navigated st) \<le> 8 \<and> explored st \<le> 8 \<and>
     (\<forall>c \<in> set (attempts st). \<not> isUnsafeLabel (label c)) \<and>
     (\<forall>c \<in> set (navigated st). \<not> isUnsafeLabel (label c))"
    by (auto simp: budget_inv_def)
  ultimately show ?thesis by blast
qed

theorem exploration_budget_witness:
  "isUnsafeLabel ''Delete account'' \<and>
   map label (orderedCandidates delete_first with_delete) = [''Delete account'', ''p1'', ''p0''] \<and>
   map label (attempts (fst (exploreVisiblePages simple_url ''https://x.com'' delete_first all_fine with_delete)))
     = [''p1'', ''p0''] \<and>
   explored (fst (exploreVisiblePages simple_url ''https://x.com'' delete_first all_fine with_delete)) \<le> 8 \<and>
   length (navigated (fst (exploreVisiblePages simple_url ''https://x.com'' no_plan all_fine ten_links))) \<le> 8 \<and>
   map label (navigated (fst (exploreVisiblePages simple_url ''https://x.com'' no_plan all_fine ten_links)))
     = [''p0'', ''p1'', ''p2'', ''p3'', ''p4'', ''p5'', ''p6'', ''p7'']"
proof -
  let ?r = "exploreVisiblePages simple_url ''https://x.com'' delete_first all_fine with_delete"
  let ?t = "exploreVisiblePages simple_url ''https://x.com'' no_plan all_fine ten_links"
  have a: "isUnsafeLabel ''Delete account''" by code_simp
  have b: "map label (orderedCandidates delete_first with_delete) = [''Delete account'', ''p1'', ''p0'']"
    by code_simp
  have c: "map label (attempts (fst ?r)) = [''p1'', ''p0'']" by code_simp
  have d: "map label (navigated (fst ?t)) = [''p0'', ''p1'', ''p2'', ''p3'', ''p4'', ''p5'', ''p6'', ''p7'']"
    by code_simp
  have "?r = (fst ?r, snd ?r)" by simp
  note r = exploration_budget [OF this]
  have "?t = (fst ?t, snd ?t)" by simp
  note t = exploration_budget [OF this]
  from a b c d r t show ?thesis by blast
qed

text \<open>
  C10. The visited-page counter counts the navigation calls that returned, and the
  visited set holds the \<open>href\<close>s of exactly those candidates; at most 8 of them. A
  candidate whose navigation throws leaves both as they were and the loop goes on to the
  next candidate. On a page of ten links where the first navigation fails, nine
  navigations are tried and eight pages visited.
\<close>

theorem failed_navigation_keeps_budget:
  "(exploreVisiblePages P url plan env candidates = (st, e) \<longrightarrow>
      explored st = length (navigated st) \<and> visited st = hrefs_of (navigated st) \<and>
      length (navigated st) \<le> 8) \<and>
   (reaches_navigation P url skipLabels env i c st0 \<and> \<not> navigates env i \<longrightarrow>
      visit_loop P url skipLabels env i (c # rest) st0 =
      visit_loop P url skipLabels env (Suc i) rest (st0\<lparr>attempts := attempts st0 @ [c]\<rparr>)) \<and>
   length (attempts (fst (exploreVisiblePages simple_url ''https://x.com'' no_plan first_fails ten_links))) = 9 \<and>
   explored (fst (exploreVisiblePages simple_url ''https://x.com'' no_plan first_fails ten_links)) = 8"
proof -
  have a: "exploreVisiblePages P url plan env candidates = (st, e) \<longrightarrow>
      explored st = length (navigated st) \<and> visited st = hrefs_of (navigated st) \<and>
      length (navigated st) \<le> 8"
    using exploreVisiblePages_inv [of P url plan env candidates st e]
    by (auto simp: budget_inv_def)
  have b: "reaches_navigation P url skipLabels env i c st0 \<and> \<not> navigates env i \<longrightarrow>
      visit_loop P url skipLabels env i (c # rest) st0 =
      visit_loop P url skipLabels env (Suc i) rest (st0\<lparr>attempts := attempts st0 @ [c]\<rparr>)"
    using failed_navigation_step [of P url skipLabels env i c st0 rest] by blast
  have c: "length (attempts (fst (exploreVisiblePages simple_url ''https://x.com'' no_plan first_fails ten_links))) = 9"
    by code_simp
  have d: "explored (fst (exploreVisiblePages simple_url ''https://x.com'' no_plan first_fails ten_links)) = 8"
    by code_simp
  from a b c d show ?thesis by blast
qed

theorem failed_navigation_keeps_budget_witness:
  "reaches_navigation simple_url ''https://x.com'' {} first_fails 0 (link ''p0'') new_Exploration \<and>
   \<not> navigates first_fails 0 \<and>
   visit_loop simple_url ''https://x.com'' {} first_fails 0 [link ''p0'', link ''p1''] new_Exploration =
   visit_loop simple_url ''https://x.com'' {} first_fails 1 [link ''p1'']
     (new_Exploration\<lparr>attempts := [link ''p0'']\<rparr>) \<and>
   map label (navigated (fst (exploreVisiblePages simple_url ''https://x.com'' no_plan first_fails ten_links)))
     = [''p1'', ''p2'', ''p3'', ''p4'', ''p5'', ''p6'', ''p7'', ''p8''] \<and>
   visited (fst (exploreVisiblePages simple_url ''https://x.com'' no_plan first_fails ten_links)) =
     hrefs_of (navigated (fst (exploreVisiblePages simple_url ''https://x.com'' no_plan first_fails ten_links)))"
proof -
  let ?t = "exploreVisiblePages simple_url ''https://x.com'' no_plan first_fails ten_links"
  have a: "reaches_navigation simple_url ''https://x.com'' {} first_fails 0 (link ''p0'') new_Exploration"
    by code_simp
  have b: "\<not> navigates first_fails 0" by (simp add: first_fails_def)
  have n: "attempts new_Exploration = []" by (simp add: new_Exploration_def)
  have d: "map label (navigated (fst ?t)) = [''p1'', ''p2'', ''p3'', ''p4'', ''p5'', ''p6'', ''p7'', ''p8'']"
    by code_simp
  have "?t = (fst ?t, snd ?t)" by simp
  with failed_navigation_keeps_budget [of simple_url "''https://x.com''" no_plan first_fails ten_links
      "fst ?t" "snd ?t" "{}" 0 "link ''p0''" new_Exploration "[link ''p1'']"] a b n d
  show ?thesis by (simp add: One_nat_def [symmetric] del: One_nat_def)
qed

end
